theory Spec2Isabelle
  imports Main "HOL-Library.AList" "HOL-Library.Multiset" "HOL-Library.List_Lexorder"
    "HOL-Library.Char_ord"
begin

section \<open>The semantic model of asn1ate (sema.py)\<close>

text \<open>
  The embedding follows \<^verbatim>\<open>src/asn1ate/sema.py\<close>. Every class of sema nodes is a
  constructor of \<open>SemaNode\<close>, with the attributes the class's \<^verbatim>\<open>__init__\<close> sets, in the
  order it sets them. Python exceptions are values of \<open>error\<close>; a function that can raise
  returns \<open>error + 'a\<close>.
\<close>

subsection \<open>Errors and enumerations\<close>

datatype TagImplicitness = IMPLICIT | EXPLICIT | AUTOMATIC

text \<open>
  \<open>CyclicReferences\<close> is the \<^verbatim>\<open>Exception('Can't sort cyclic references: %s' % graph)\<close>
  of \<^verbatim>\<open>topological_sort\<close>; it carries the graph that is formatted into the message.
  \<open>InvalidArgument\<close> is the \<^verbatim>\<open>Exception("Expected SelectionType, was ...")\<close> of
  \<^verbatim>\<open>resolve_selection_type\<close>, \<open>MalformedInput\<close> the exceptions of the constructors. The
  others are the built-in exceptions Python raises for a missing attribute, a missing
  dictionary key, \<^verbatim>\<open>list.index\<close> of an absent element and an index out of range.
\<close>

datatype error =
    AttributeError
  | KeyError
  | ValueError
  | IndexError
  | InvalidArgument
  | MalformedInput
  | CyclicReferences "(string \<times> string set) list"

text \<open>
  What \<^verbatim>\<open>_maybe_create_sema_node\<close> returns: the token's node when it is given an
  annotated token, and its argument unchanged otherwise (\<^verbatim>\<open>None\<close> or a primitive leaf).
\<close>

datatype 'n maybe = PyNone | Primitive string | Sema 'n

datatype ConstructedKind = ChoiceType | SequenceType | SetType

datatype CollectionKind = SequenceOfType | SetOfType

subsection \<open>Sema nodes\<close>

text \<open>
  \<open>ConstructedType\<close> is the base class of \<^verbatim>\<open>ChoiceType\<close>, \<^verbatim>\<open>SequenceType\<close> and
  \<^verbatim>\<open>SetType\<close>, which add nothing to it; the subclass is the first argument. Likewise
  \<open>CollectionType\<close> for \<^verbatim>\<open>SequenceOfType\<close> and \<^verbatim>\<open>SetOfType\<close>.

  The class \<^verbatim>\<open>ComponentType\<close> has the two shapes its constructor can give it:
  \<^item> \<open>ComponentType identifier type_decl default_value optional\<close>, after
    \<^verbatim>\<open>crack_named_type\<close> has set \<^verbatim>\<open>identifier\<close> and \<^verbatim>\<open>type_decl\<close> from a named type
    (\<^verbatim>\<open>components_of_type\<close> is \<^verbatim>\<open>None\<close>);
  \<^item> \<open>ComponentsOf type_decl components_of_type\<close>, for a
    \<^verbatim>\<open>ComponentTypeComponentsOf\<close> token: \<^verbatim>\<open>identifier\<close> and \<^verbatim>\<open>default_value\<close> are
    \<^verbatim>\<open>None\<close>, \<^verbatim>\<open>optional\<close> is \<^verbatim>\<open>False\<close>, and \<^verbatim>\<open>type_decl\<close> is the \<^verbatim>\<open>None\<close> of line 703
    until \<^verbatim>\<open>auto_tag\<close> assigns to it.

  \<open>TaggedType class_name class_number implicitness type_decl\<close>: the four-element
  constructor call of \<^verbatim>\<open>auto_tag\<close> stores whatever \<^verbatim>\<open>child.type_decl\<close> was, which is
  \<^verbatim>\<open>None\<close> for a COMPONENTS OF component; hence the option.

  \<open>Imports\<close> holds the dictionary \<^verbatim>\<open>self.imports\<close> as the list of its items in
  insertion order; its keys are \<open>GlobalModuleReference\<close> nodes.
\<close>

datatype SemaNode =
    Exports "string list"
  | Imports "(SemaNode \<times> string list) list"
  | GlobalModuleReference string "SemaNode maybe"
  | TypeAssignment string SemaNode
  | ValueAssignment string SemaNode "SemaNode maybe"
  | ConstructedType ConstructedKind string "SemaNode list"
  | CollectionType CollectionKind "SemaNode maybe" SemaNode
  | TaggedType "string option" "string option" "TagImplicitness option" "SemaNode option"
  | SimpleType string "SemaNode option"
  | DefinedType "string option" string "SemaNode option"
  | SelectionType string SemaNode
  | ReferencedValue "string option" string
  | SingleValueConstraint "SemaNode maybe"
  | ValueRangeConstraint "SemaNode maybe" "SemaNode maybe"
  | SizeConstraint SemaNode
  | ComponentType string SemaNode "SemaNode maybe" bool
  | ComponentsOf "SemaNode option" SemaNode
  | NamedType string SemaNode
  | ValueListType string "SemaNode list" "SemaNode maybe"
  | BitStringType string "SemaNode list" "SemaNode maybe"
  | NamedValue string "string option"
  | ExtensionMarker
  | NameForm string
  | NumberForm string
  | NameAndNumberForm SemaNode SemaNode
  | ObjectIdentifierValue "SemaNode list"
  | BinaryStringValue string
  | HexStringValue string

text \<open>
  A \<^verbatim>\<open>Module\<close> is built from a top-level \<^verbatim>\<open>ModuleDefinition\<close> token only ("Objects in
  root must be Modules by definition of the parser"), so it is a record of its own. The
  attribute \<^verbatim>\<open>imports\<close> is the field \<open>module_imports\<close>. The cache \<^verbatim>\<open>_user_types\<close> is not a
  field: \<^verbatim>\<open>user_types()\<close> below is the function that fills it.
\<close>

record Module =
  name :: string
  tag_default :: "TagImplicitness option"
  exports :: "SemaNode maybe"
  module_imports :: "SemaNode maybe"
  assignments :: "SemaNode list"

subsection \<open>children and descendants\<close>

fun maybe_nodes :: "SemaNode maybe \<Rightarrow> SemaNode list" where
  "maybe_nodes (Sema n) = [n]"
| "maybe_nodes PyNone = []"
| "maybe_nodes (Primitive p) = []"

text \<open>
  \<^verbatim>\<open>SemaNode.children\<close>: the attributes that are sema nodes, in the order of
  \<^verbatim>\<open>vars(self)\<close> (the order in which \<^verbatim>\<open>__init__\<close> first assigns them), followed by the
  sema nodes inside the attributes that are lists. A dictionary attribute
  (\<^verbatim>\<open>Imports.imports\<close>) contributes nothing.
\<close>

fun children :: "SemaNode \<Rightarrow> SemaNode list" where
  "children (Exports symbols) = []"
| "children (Imports entries) = []"
| "children (GlobalModuleReference m oid) = maybe_nodes oid"
| "children (TypeAssignment tn td) = [td]"
| "children (ValueAssignment vn td v) = td # maybe_nodes v"
| "children (ConstructedType k tn components) = components"
| "children (CollectionType k sc td) = maybe_nodes sc @ [td]"
| "children (TaggedType cn cnum impl td) = (case td of None \<Rightarrow> [] | Some t \<Rightarrow> [t])"
| "children (SimpleType tn c) = (case c of None \<Rightarrow> [] | Some t \<Rightarrow> [t])"
| "children (DefinedType mn tn c) = (case c of None \<Rightarrow> [] | Some t \<Rightarrow> [t])"
| "children (SelectionType ident td) = [td]"
| "children (ReferencedValue mr n) = []"
| "children (SingleValueConstraint v) = maybe_nodes v"
| "children (ValueRangeConstraint lo hi) = maybe_nodes lo @ maybe_nodes hi"
| "children (SizeConstraint nested) = [nested]"
| "children (ComponentType ident td dv opt) = td # maybe_nodes dv"
| "children (ComponentsOf td cot) = (case td of None \<Rightarrow> [] | Some t \<Rightarrow> [t]) @ [cot]"
| "children (NamedType ident td) = [td]"
| "children (ValueListType tn named_values c) = maybe_nodes c @ named_values"
| "children (BitStringType tn named_bits c) = maybe_nodes c @ named_bits"
| "children (NamedValue ident v) = []"
| "children ExtensionMarker = []"
| "children (NameForm n) = []"
| "children (NumberForm v) = []"
| "children (NameAndNumberForm n number) = [n, number]"
| "children (ObjectIdentifierValue components) = components"
| "children (BinaryStringValue v) = []"
| "children (HexStringValue v) = []"

lemma size_maybe_estimation [termination_simp]:
  "x \<in> set_maybe m \<Longrightarrow> y < f x \<Longrightarrow> y < size_maybe f m"
  by (cases m) auto

lemma size_maybe_estimation' [termination_simp]:
  "x \<in> set_maybe m \<Longrightarrow> y \<le> f x \<Longrightarrow> y \<le> size_maybe f m"
  by (cases m) auto

lemma maybe_nodes_size: "c \<in> set (maybe_nodes m) \<Longrightarrow> size c < Suc (size_maybe size m)"
  by (cases m) auto

lemma list_member_size: "c \<in> set cs \<Longrightarrow> size c < Suc (size_list size cs)"
  by (induction cs) auto

lemma children_size: "c \<in> set (children n) \<Longrightarrow> size c < size n"
  by (cases n)
    (auto dest: maybe_nodes_size list_member_size split: option.splits)

text \<open>
  \<^verbatim>\<open>SemaNode.descendants\<close>: every child, each followed by its own descendants.
\<close>

function descendants :: "SemaNode \<Rightarrow> SemaNode list" where
  "descendants n = concat (map (\<lambda>child. child # descendants child) (children n))"
  by pat_completeness auto
termination
  by (relation "measure size") (auto dest: children_size)

declare descendants.simps [simp del]

text \<open>
  A module's own \<^verbatim>\<open>children()\<close>: \<^verbatim>\<open>exports\<close> and \<^verbatim>\<open>imports\<close> when they are nodes, then the
  elements of the list \<^verbatim>\<open>assignments\<close>.
\<close>

definition Module_children :: "Module \<Rightarrow> SemaNode list" where
  "Module_children m = maybe_nodes (exports m) @ maybe_nodes (module_imports m) @ assignments m"

definition Module_descendants :: "Module \<Rightarrow> SemaNode list" where
  "Module_descendants m =
     concat (map (\<lambda>child. child # descendants child) (Module_children m))"

subsection \<open>Attributes and methods the algorithms test for\<close>

text \<open>
  \<^verbatim>\<open>hasattr(c, 'type_decl')\<close>: the classes whose constructor assigns \<^verbatim>\<open>self.type_decl\<close>.
  \<^verbatim>\<open>ComponentType.__init__\<close> assigns it on every path (line 703), so both shapes have it.
\<close>

fun has_type_decl :: "SemaNode \<Rightarrow> bool" where
  "has_type_decl (TypeAssignment tn td) = True"
| "has_type_decl (ValueAssignment vn td v) = True"
| "has_type_decl (CollectionType k sc td) = True"
| "has_type_decl (TaggedType cn cnum impl td) = True"
| "has_type_decl (SelectionType ident td) = True"
| "has_type_decl (ComponentType ident td dv opt) = True"
| "has_type_decl (ComponentsOf td cot) = True"
| "has_type_decl (NamedType ident td) = True"
| "has_type_decl n = False"

text \<open>The value of the attribute \<^verbatim>\<open>type_decl\<close>, \<open>None\<close> for Python's \<^verbatim>\<open>None\<close>.\<close>

fun type_decl :: "SemaNode \<Rightarrow> SemaNode option" where
  "type_decl (TypeAssignment tn td) = Some td"
| "type_decl (ValueAssignment vn td v) = Some td"
| "type_decl (CollectionType k sc td) = Some td"
| "type_decl (TaggedType cn cnum impl td) = td"
| "type_decl (SelectionType ident td) = Some td"
| "type_decl (ComponentType ident td dv opt) = Some td"
| "type_decl (ComponentsOf td cot) = td"
| "type_decl (NamedType ident td) = Some td"
| "type_decl n = None"

text \<open>The assignment \<^verbatim>\<open>child.type_decl = t\<close>.\<close>

fun set_type_decl :: "SemaNode \<Rightarrow> SemaNode \<Rightarrow> SemaNode" where
  "set_type_decl (TypeAssignment tn td) t = TypeAssignment tn t"
| "set_type_decl (ValueAssignment vn td v) t = ValueAssignment vn t v"
| "set_type_decl (CollectionType k sc td) t = CollectionType k sc t"
| "set_type_decl (TaggedType cn cnum impl td) t = TaggedType cn cnum impl (Some t)"
| "set_type_decl (SelectionType ident td) t = SelectionType ident t"
| "set_type_decl (ComponentType ident td dv opt) t = ComponentType ident t dv opt"
| "set_type_decl (ComponentsOf td cot) t = ComponentsOf (Some t) cot"
| "set_type_decl (NamedType ident td) t = NamedType ident t"
| "set_type_decl n t = n"

text \<open>\<^verbatim>\<open>isinstance(c, TaggedType)\<close>, for an attribute value that may be \<^verbatim>\<open>None\<close>.\<close>

fun isinstance_TaggedType :: "SemaNode option \<Rightarrow> bool" where
  "isinstance_TaggedType (Some (TaggedType cn cnum impl td)) = True"
| "isinstance_TaggedType n = False"

fun isinstance_ConstructedType :: "SemaNode \<Rightarrow> bool" where
  "isinstance_ConstructedType (ConstructedType k tn components) = True"
| "isinstance_ConstructedType n = False"

fun isinstance_ChoiceType :: "SemaNode option \<Rightarrow> bool" where
  "isinstance_ChoiceType (Some (ConstructedType ChoiceType tn components)) = True"
| "isinstance_ChoiceType n = False"

fun isinstance_Assignment :: "SemaNode \<Rightarrow> bool" where
  "isinstance_Assignment (TypeAssignment tn td) = True"
| "isinstance_Assignment (ValueAssignment vn td v) = True"
| "isinstance_Assignment n = False"

text \<open>
  The attribute or property \<^verbatim>\<open>type_name\<close>. For \<^verbatim>\<open>TaggedType\<close> and \<^verbatim>\<open>SelectionType\<close> it is
  the property \<^verbatim>\<open>self.type_decl.type_name\<close>, which raises \<^verbatim>\<open>AttributeError\<close> when the inner
  object has no such attribute.
\<close>

fun kind_str :: "CollectionKind \<Rightarrow> string" where
  "kind_str SequenceOfType = ''SEQUENCE''"
| "kind_str SetOfType = ''SET''"

fun type_name :: "SemaNode \<Rightarrow> error + string" where
  "type_name (TypeAssignment tn td) = Inr tn"
| "type_name (ConstructedType k tn components) = Inr tn"
| "type_name (CollectionType k sc td) = Inr (kind_str k @ '' OF'')"
| "type_name (TaggedType cn cnum impl td) =
     (case td of None \<Rightarrow> Inl AttributeError | Some t \<Rightarrow> type_name t)"
| "type_name (SimpleType tn c) = Inr tn"
| "type_name (DefinedType mn tn c) = Inr tn"
| "type_name (SelectionType ident td) = type_name td"
| "type_name (ValueListType tn named_values c) = Inr tn"
| "type_name (BitStringType tn named_bits c) = Inr tn"
| "type_name n = Inl AttributeError"

text \<open>\<^verbatim>\<open>hasattr(d, 'reference_name')\<close>: the classes that define the method.\<close>

fun has_reference_name :: "SemaNode \<Rightarrow> bool" where
  "has_reference_name (TypeAssignment tn td) = True"
| "has_reference_name (ValueAssignment vn td v) = True"
| "has_reference_name (DefinedType mn tn c) = True"
| "has_reference_name (SelectionType ident td) = True"
| "has_reference_name (ReferencedValue mr n) = True"
| "has_reference_name (NameForm n) = True"
| "has_reference_name n = False"

fun reference_name :: "SemaNode \<Rightarrow> error + string" where
  "reference_name (TypeAssignment tn td) = Inr tn"
| "reference_name (ValueAssignment vn td v) = Inr vn"
| "reference_name (DefinedType mn tn c) = Inr tn"
| "reference_name (SelectionType ident td) = type_name td"
| "reference_name (ReferencedValue mr n) = Inr n"
| "reference_name (NameForm n) = Inr n"
| "reference_name n = Inl AttributeError"

text \<open>
  A set comprehension over calls that may raise: the first exception ends it.
\<close>

fun set_of_results :: "(error + 'a) list \<Rightarrow> error + 'a set" where
  "set_of_results [] = Inr {}"
| "set_of_results (Inl e # rs) = Inl e"
| "set_of_results (Inr x # rs) =
     (case set_of_results rs of Inl e \<Rightarrow> Inl e | Inr S \<Rightarrow> Inr (insert x S))"

text \<open>
  \<^verbatim>\<open>Assignment.references\<close>; only the subclasses of \<^verbatim>\<open>Assignment\<close> have the method.
\<close>

definition references :: "SemaNode \<Rightarrow> error + string set" where
  "references a =
     (if isinstance_Assignment a
      then set_of_results (map reference_name (filter has_reference_name (descendants a)))
      else Inl AttributeError)"

subsection \<open>Automatic tagging\<close>

text \<open>Python's \<^verbatim>\<open>str\<close> of a non-negative integer.\<close>

definition digit_char :: "nat \<Rightarrow> char" where
  "digit_char d = ''0123456789'' ! d"

fun str :: "nat \<Rightarrow> string" where
  "str n = (if n < 10 then [digit_char n] else str (n div 10) @ [digit_char (n mod 10)])"

declare str.simps [simp del]

text \<open>
  The loop of \<^verbatim>\<open>auto_tag\<close>: \<^verbatim>\<open>enumerate\<close> numbers the children that have a \<^verbatim>\<open>type_decl\<close>,
  and each of them gets \<^verbatim>\<open>TaggedType((None, str(tag_number), None, element))\<close> as its new
  \<^verbatim>\<open>type_decl\<close>; the other children stay as they are and use no number.
\<close>

fun wrap_children :: "nat \<Rightarrow> SemaNode list \<Rightarrow> SemaNode list" where
  "wrap_children tag_number [] = []"
| "wrap_children tag_number (child # rest) =
     (if has_type_decl child
      then set_type_decl child (TaggedType None (Some (str tag_number)) None (type_decl child))
             # wrap_children (Suc tag_number) rest
      else child # wrap_children tag_number rest)"

text \<open>
  \<^verbatim>\<open>ConstructedType.auto_tag\<close>. The method mutates the components in place; the model
  returns the constructed type with its new components. Only \<^verbatim>\<open>ConstructedType\<close> has the
  method, and \<^verbatim>\<open>build_semantic_model\<close> calls it behind an \<^verbatim>\<open>isinstance\<close> test; the last
  equation stands for that test failing.
\<close>

fun auto_tag :: "SemaNode \<Rightarrow> SemaNode" where
  "auto_tag (ConstructedType k tn components) =
     (let component_types = map type_decl (filter has_type_decl components);
          already_tagged = list_ex isinstance_TaggedType component_types
      in if \<not> already_tagged
         then ConstructedType k tn
                (wrap_children 0 (children (ConstructedType k tn components)))
         else ConstructedType k tn components)"
| "auto_tag n = n"

text \<open>
  The second loop of \<^verbatim>\<open>build_semantic_model\<close> calls \<^verbatim>\<open>auto_tag\<close> on every
  \<^verbatim>\<open>ConstructedType\<close> among \<^verbatim>\<open>module.descendants()\<close>. The list of descendants is built
  before the first call and holds every node object below the module once (the node
  factory creates a new object for every token, so the model is a tree). A call on a
  node assigns to the attribute \<^verbatim>\<open>type_decl\<close> of that node's own components only, reads
  nothing but these attributes, and what it assigns is a new \<^verbatim>\<open>TaggedType\<close> around the
  old value. Calls on different nodes therefore do not interfere, and the tree after
  the loop is the tree in which every constructed type has been given its tags.
  \<open>auto_tag_tree n\<close> is that tree below and including \<open>n\<close>; it is computed from the leaves
  upwards.
\<close>

fun auto_tag_tree :: "SemaNode \<Rightarrow> SemaNode" where
  "auto_tag_tree (Exports symbols) = Exports symbols"
| "auto_tag_tree (Imports entries) = Imports entries"
| "auto_tag_tree (GlobalModuleReference m oid) =
     GlobalModuleReference m (map_maybe auto_tag_tree oid)"
| "auto_tag_tree (TypeAssignment tn td) = TypeAssignment tn (auto_tag_tree td)"
| "auto_tag_tree (ValueAssignment vn td v) =
     ValueAssignment vn (auto_tag_tree td) (map_maybe auto_tag_tree v)"
| "auto_tag_tree (ConstructedType k tn cs) =
     auto_tag (ConstructedType k tn (map auto_tag_tree cs))"
| "auto_tag_tree (CollectionType k sc td) =
     CollectionType k (map_maybe auto_tag_tree sc) (auto_tag_tree td)"
| "auto_tag_tree (TaggedType cn cnum impl td) =
     TaggedType cn cnum impl (map_option auto_tag_tree td)"
| "auto_tag_tree (SimpleType tn c) = SimpleType tn (map_option auto_tag_tree c)"
| "auto_tag_tree (DefinedType mn tn c) = DefinedType mn tn (map_option auto_tag_tree c)"
| "auto_tag_tree (SelectionType ident td) = SelectionType ident (auto_tag_tree td)"
| "auto_tag_tree (ReferencedValue mr n) = ReferencedValue mr n"
| "auto_tag_tree (SingleValueConstraint v) = SingleValueConstraint (map_maybe auto_tag_tree v)"
| "auto_tag_tree (ValueRangeConstraint lo hi) =
     ValueRangeConstraint (map_maybe auto_tag_tree lo) (map_maybe auto_tag_tree hi)"
| "auto_tag_tree (SizeConstraint nested) = SizeConstraint (auto_tag_tree nested)"
| "auto_tag_tree (ComponentType ident td dv opt) =
     ComponentType ident (auto_tag_tree td) (map_maybe auto_tag_tree dv) opt"
| "auto_tag_tree (ComponentsOf td cot) =
     ComponentsOf (map_option auto_tag_tree td) (auto_tag_tree cot)"
| "auto_tag_tree (NamedType ident td) = NamedType ident (auto_tag_tree td)"
| "auto_tag_tree (ValueListType tn named_values c) =
     ValueListType tn (map auto_tag_tree named_values) (map_maybe auto_tag_tree c)"
| "auto_tag_tree (BitStringType tn named_bits c) =
     BitStringType tn (map auto_tag_tree named_bits) (map_maybe auto_tag_tree c)"
| "auto_tag_tree (NamedValue ident v) = NamedValue ident v"
| "auto_tag_tree ExtensionMarker = ExtensionMarker"
| "auto_tag_tree (NameForm n) = NameForm n"
| "auto_tag_tree (NumberForm v) = NumberForm v"
| "auto_tag_tree (NameAndNumberForm n number) =
     NameAndNumberForm (auto_tag_tree n) (auto_tag_tree number)"
| "auto_tag_tree (ObjectIdentifierValue cs) = ObjectIdentifierValue (map auto_tag_tree cs)"
| "auto_tag_tree (BinaryStringValue v) = BinaryStringValue v"
| "auto_tag_tree (HexStringValue v) = HexStringValue v"

text \<open>
  \<^verbatim>\<open>build_semantic_model\<close>, from the list \<^verbatim>\<open>root\<close> of modules that its first loop has
  created with the node factory: the post-processing of the modules whose tag default
  is AUTOMATIC.
\<close>

definition build_semantic_model :: "Module list \<Rightarrow> Module list" where
  "build_semantic_model root =
     map (\<lambda>module.
            if tag_default module = Some AUTOMATIC
            then module\<lparr>exports := map_maybe auto_tag_tree (exports module),
                        module_imports := map_maybe auto_tag_tree (module_imports module),
                        assignments := map auto_tag_tree (assignments module)\<rparr>
            else module) root"

text \<open>
  Scenario 1 of the specification: the module
  \<^verbatim>\<open>M DEFINITIONS AUTOMATIC TAGS ::= BEGIN T ::= SEQUENCE { a INTEGER, b BOOLEAN, c UTF8String } END\<close>
  as the node factory builds it, and its sequence type after tagging.
\<close>

definition scenario_1 :: Module where
  "scenario_1 =
     \<lparr>name = ''M'', tag_default = Some AUTOMATIC, exports = PyNone, module_imports = PyNone,
      assignments = [TypeAssignment ''T'' (ConstructedType SequenceType ''SEQUENCE''
        [ComponentType ''a'' (SimpleType ''INTEGER'' None) PyNone False,
         ComponentType ''b'' (SimpleType ''BOOLEAN'' None) PyNone False,
         ComponentType ''c'' (SimpleType ''UTF8String'' None) PyNone False])]\<rparr>"

definition scenario_1_tagged :: SemaNode where
  "scenario_1_tagged =
     ConstructedType SequenceType ''SEQUENCE''
       [ComponentType ''a''
          (TaggedType None (Some ''0'') None (Some (SimpleType ''INTEGER'' None))) PyNone False,
        ComponentType ''b''
          (TaggedType None (Some ''1'') None (Some (SimpleType ''BOOLEAN'' None))) PyNone False,
        ComponentType ''c''
          (TaggedType None (Some ''2'') None (Some (SimpleType ''UTF8String'' None)))
          PyNone False]"


subsection \<open>Methods of Module\<close>

text \<open>
  \<^verbatim>\<open>Module.resolve_tag_implicitness\<close>. \<open>tag_implicitness\<close> is \<open>None\<close> for Python's
  \<^verbatim>\<open>None\<close>, and so is \<open>tagged_type_decl\<close>.
\<close>

definition resolve_tag_implicitness ::
  "Module \<Rightarrow> TagImplicitness option \<Rightarrow> SemaNode option \<Rightarrow> TagImplicitness" where
  "resolve_tag_implicitness self tag_implicitness tagged_type_decl =
     (case tag_implicitness of
        Some t \<Rightarrow> t
      | None \<Rightarrow>
          if isinstance_ChoiceType tagged_type_decl then EXPLICIT
          else (case tag_default self of
                  None \<Rightarrow> EXPLICIT
                | Some d \<Rightarrow> if d = AUTOMATIC then IMPLICIT else d))"

text \<open>
  \<^verbatim>\<open>Module.user_types\<close>: the type assignments indexed by name, a later one replacing an
  earlier one of the same name. The method fills the cache \<^verbatim>\<open>_user_types\<close> on the first
  call and returns it afterwards; the cached values are the \<^verbatim>\<open>type_decl\<close> objects of the
  assignments themselves, so the function of the assignments is what every call returns.
\<close>

fun index_type_assignment :: "SemaNode \<Rightarrow> (string \<rightharpoonup> SemaNode) \<Rightarrow> (string \<rightharpoonup> SemaNode)" where
  "index_type_assignment (TypeAssignment tn td) m = m(tn \<mapsto> td)"
| "index_type_assignment a m = m"

definition user_types :: "Module \<Rightarrow> (string \<rightharpoonup> SemaNode)" where
  "user_types self = fold index_type_assignment (assignments self) Map.empty"

definition get_type_decl :: "Module \<Rightarrow> string \<Rightarrow> error + SemaNode" where
  "get_type_decl self tn =
     (case user_types self tn of None \<Rightarrow> Inl KeyError | Some td \<Rightarrow> Inr td)"

text \<open>The attribute \<^verbatim>\<open>components\<close>, of the classes that have it.\<close>

fun components :: "SemaNode \<Rightarrow> error + SemaNode list" where
  "components (ConstructedType k tn cs) = Inr cs"
| "components (ObjectIdentifierValue cs) = Inr cs"
| "components n = Inl AttributeError"

text \<open>
  The attribute \<^verbatim>\<open>identifier\<close> (the word is a keyword of Isabelle, hence the suffix); it
  is \<^verbatim>\<open>None\<close> on a COMPONENTS OF component.
\<close>

fun identifier_attr :: "SemaNode \<Rightarrow> error + string option" where
  "identifier_attr (SelectionType ident td) = Inr (Some ident)"
| "identifier_attr (ComponentType ident td dv opt) = Inr (Some ident)"
| "identifier_attr (ComponentsOf td cot) = Inr None"
| "identifier_attr (NamedType ident td) = Inr (Some ident)"
| "identifier_attr (NamedValue ident v) = Inr (Some ident)"
| "identifier_attr n = Inl AttributeError"

text \<open>
  The loop of \<^verbatim>\<open>resolve_selection_type\<close> over \<^verbatim>\<open>choice_type.components\<close>: reading
  \<^verbatim>\<open>named_type.identifier\<close> or \<^verbatim>\<open>named_type.type_decl\<close> of an object without that
  attribute raises.
\<close>

fun scan_components :: "string \<Rightarrow> SemaNode list \<Rightarrow> error + SemaNode option" where
  "scan_components ident [] = Inr None"
| "scan_components ident (named_type # rest) =
     (case identifier_attr named_type of
        Inl e \<Rightarrow> Inl e
      | Inr i \<Rightarrow>
          if i = Some ident
          then (if has_type_decl named_type then Inr (type_decl named_type)
                else Inl AttributeError)
          else scan_components ident rest)"

fun resolve_selection_type :: "Module \<Rightarrow> SemaNode \<Rightarrow> error + SemaNode option" where
  "resolve_selection_type self (SelectionType ident td) =
     (case type_name td of
        Inl e \<Rightarrow> Inl e
      | Inr tn \<Rightarrow>
          (case get_type_decl self tn of
             Inl e \<Rightarrow> Inl e
           | Inr choice_type \<Rightarrow>
               (case components choice_type of
                  Inl e \<Rightarrow> Inl e
                | Inr cs \<Rightarrow> scan_components ident cs)))"
| "resolve_selection_type self n = Inl InvalidArgument"

subsection \<open>The constructor of Imports\<close>

text \<open>
  No class of sema.py defines \<^verbatim>\<open>__eq__\<close> or \<^verbatim>\<open>__hash__\<close>, so a dictionary keyed by sema
  nodes compares its keys by object identity. An object is modelled as the pair of its
  identity (the number of objects allocated before it) and its value; two keys are the
  same key when their identities are equal.

  A clause \<open>(symbols, module, oid)\<close> holds the symbol list, the module name
  (\<^verbatim>\<open>module.elements[0]\<close>) and what \<^verbatim>\<open>_maybe_create_sema_node(oid)\<close> returns.
\<close>

type_synonym import_clause = "string list \<times> string \<times> SemaNode maybe"

text \<open>\<^verbatim>\<open>d.setdefault(key, []).extend(symbols)\<close>\<close>

fun setdefault_extend ::
  "((nat \<times> SemaNode) \<times> string list) list \<Rightarrow> (nat \<times> SemaNode) \<Rightarrow> string list
     \<Rightarrow> ((nat \<times> SemaNode) \<times> string list) list" where
  "setdefault_extend [] key symbols = [(key, [] @ symbols)]"
| "setdefault_extend ((k, v) # d) key symbols =
     (if fst k = fst key then (k, v @ symbols) # d
      else (k, v) # setdefault_extend d key symbols)"

text \<open>
  The loop of \<^verbatim>\<open>Imports.__init__\<close>; \<open>next_id\<close> is the identity the next allocated object
  gets. Every iteration allocates a new \<^verbatim>\<open>GlobalModuleReference\<close>.
\<close>

fun Imports_loop ::
  "nat \<Rightarrow> ((nat \<times> SemaNode) \<times> string list) list \<Rightarrow> import_clause list
     \<Rightarrow> ((nat \<times> SemaNode) \<times> string list) list" where
  "Imports_loop next_id d [] = d"
| "Imports_loop next_id d ((symbols, module, oid) # rest) =
     (let key = (next_id, GlobalModuleReference module oid)
      in Imports_loop (Suc next_id) (setdefault_extend d key symbols) rest)"

definition Imports_init :: "import_clause list \<Rightarrow> SemaNode" where
  "Imports_init elements =
     Imports (map (\<lambda>(key, symbols). (snd key, symbols)) (Imports_loop 0 [] elements))"

subsection \<open>Dependency sorting: topological_sort\<close>

text \<open>
  The dictionary \<^verbatim>\<open>graph\<close> of \<^verbatim>\<open>topological_sort\<close>: reference names to sets of reference
  names, as the list of its items in insertion order.
\<close>

type_synonym graph = "(string \<times> string set) list"

text \<open>A list comprehension over calls that may raise: the first exception ends it.\<close>

fun results :: "(error + 'a) list \<Rightarrow> error + 'a list" where
  "results [] = Inr []"
| "results (Inl e # rs) = Inl e"
| "results (Inr x # rs) = (case results rs of Inl e \<Rightarrow> Inl e | Inr xs \<Rightarrow> Inr (x # xs))"

text \<open>
  One item of the generator \<^verbatim>\<open>(a.reference_name(), a.references()) for a in assignments\<close>.
\<close>

definition graph_item :: "SemaNode \<Rightarrow> error + string \<times> string set" where
  "graph_item a =
     (case reference_name a of
        Inl e \<Rightarrow> Inl e
      | Inr n \<Rightarrow> (case references a of Inl e \<Rightarrow> Inl e | Inr refs \<Rightarrow> Inr (n, refs)))"

text \<open>
  \<^verbatim>\<open>dict(items)\<close>: a later item replaces the value of an earlier item with the same key
  and keeps the position of the earlier one.
\<close>

definition dict :: "('k \<times> 'v) list \<Rightarrow> ('k \<times> 'v) list" where
  "dict items = foldl (\<lambda>d (k, v). AList.update k v d) [] items"

text \<open>The first statement of \<^verbatim>\<open>topological_sort\<close>: the graph of the assignments.\<close>

definition reference_graph :: "SemaNode list \<Rightarrow> error + graph" where
  "reference_graph asgs =
     (case results (map graph_item asgs) of
        Inl e \<Rightarrow> Inl e
      | Inr items \<Rightarrow> Inr (dict items))"

text \<open>The local function \<^verbatim>\<open>has_predecessor\<close>, with the graph it reads as argument.\<close>

definition has_predecessor :: "graph \<Rightarrow> string \<Rightarrow> bool" where
  "has_predecessor graph node = list_ex (\<lambda>(k, predecessors). node \<in> predecessors) graph"

text \<open>
  The \<^verbatim>\<open>while roots\<close> loop. \<^verbatim>\<open>roots.pop()\<close> takes the last root; \<^verbatim>\<open>graph.pop(root, set())\<close>
  removes the root's entry and gives its value, or an empty set when the root is not a
  key; \<^verbatim>\<open>insert(0, root)\<close> puts the root in front of the order. The successors are a
  Python set, and the order in which \<^verbatim>\<open>roots.extend\<close> iterates over it is not specified by
  the language: \<open>enum\<close> is that order, a parameter of the model (see \<open>iterates_sets\<close>).
  The loop returns the graph that is left and the order.
\<close>

function topological_loop ::
  "(string set \<Rightarrow> string list) \<Rightarrow> graph \<Rightarrow> string list \<Rightarrow> string list
     \<Rightarrow> graph \<times> string list" where
  "topological_loop enum graph roots topological_order =
     (if roots = [] then (graph, topological_order)
      else
        let root = last roots;
            successors = (case map_of graph root of None \<Rightarrow> [] | Some s \<Rightarrow> enum s);
            graph' = AList.delete root graph
        in topological_loop enum graph'
             (butlast roots @ filter (\<lambda>successor. \<not> has_predecessor graph' successor) successors)
             (root # topological_order))"
  by pat_completeness auto
termination
proof (relation "measures [\<lambda>(enum, graph, roots, order). length graph,
                           \<lambda>(enum, graph, roots, order). length roots]", goal_cases)
  case 1
  then show ?case by simp
next
  case (2 enum graph roots topological_order root successors graph')
  show ?case
  proof (cases "map_of graph root")
    case None
    then have "AList.delete root graph = graph"
      by (simp add: AList.delete_id map_of_eq_None_iff)
    with 2 None show ?thesis by simp
  next
    case (Some s)
    then have "root \<in> fst ` set graph"
      by (force dest: map_of_SomeD)
    then have "length (AList.delete root graph) < length graph"
      unfolding AList.delete_eq by (auto intro!: length_filter_less)
    with 2 show ?thesis by simp
  qed
qed

declare topological_loop.simps [simp del]

text \<open>\<^verbatim>\<open>list.index\<close>, which raises \<^verbatim>\<open>ValueError\<close> for an absent element.\<close>

fun list_index :: "'a list \<Rightarrow> 'a \<Rightarrow> error + nat" where
  "list_index [] x = Inl ValueError"
| "list_index (y # ys) x =
     (if y = x then Inr 0 else (case list_index ys x of Inl e \<Rightarrow> Inl e | Inr i \<Rightarrow> Inr (Suc i)))"

text \<open>
  \<^verbatim>\<open>sorted(xs, key=...)\<close>: the keys are computed first (a key that raises ends the call),
  and the sort is stable, as \<open>sort_key\<close> is.
\<close>

definition sorted_by_key :: "('a \<Rightarrow> error + nat) \<Rightarrow> 'a list \<Rightarrow> error + 'a list" where
  "sorted_by_key key xs =
     (case results (map key xs) of
        Inl e \<Rightarrow> Inl e
      | Inr keys \<Rightarrow> Inr (map snd (sort_key fst (zip keys xs))))"

definition topological_sort ::
  "(string set \<Rightarrow> string list) \<Rightarrow> SemaNode list \<Rightarrow> error + SemaNode list" where
  "topological_sort enum asgs =
     (case reference_graph asgs of
        Inl e \<Rightarrow> Inl e
      | Inr graph \<Rightarrow>
          (case topological_loop enum graph
                  (filter (\<lambda>n. \<not> has_predecessor graph n) (map fst graph)) [] of
             (residual, topological_order) \<Rightarrow>
               if residual \<noteq> [] then Inl (CyclicReferences residual)
               else sorted_by_key
                      (\<lambda>a. case reference_name a of
                              Inl e \<Rightarrow> Inl e
                            | Inr n \<Rightarrow> list_index topological_order n)
                      asgs))"

text \<open>
  What is known of the iteration over a Python set: it yields every element of the set
  once. The theorems about the sorters hold for every \<open>enum\<close> of this kind.
\<close>

definition iterates_sets :: "(string set \<Rightarrow> string list) \<Rightarrow> bool" where
  "iterates_sets enum \<longleftrightarrow> (\<forall>S. finite S \<longrightarrow> set (enum S) = S \<and> distinct (enum S))"

text \<open>
  The relations the statements about \<^verbatim>\<open>topological_sort\<close> are written with. \<open>edges g\<close> are
  the pairs of a key of the graph and a name in its reference set; \<open>graph_edges g\<close> are
  those whose second name is a key too (the references among the members); and
  \<open>depends_on asgs\<close> relates an assignment of the list to the assignments of the list
  whose name is in its \<^verbatim>\<open>references()\<close>.
\<close>

definition edges :: "graph \<Rightarrow> (string \<times> string) set" where
  "edges g = {(n, m). \<exists>s. (n, s) \<in> set g \<and> m \<in> s}"

definition graph_edges :: "graph \<Rightarrow> (string \<times> string) set" where
  "graph_edges g = {(n, m). (n, m) \<in> edges g \<and> m \<in> fst ` set g}"

definition depends_on :: "SemaNode list \<Rightarrow> (SemaNode \<times> SemaNode) set" where
  "depends_on asgs =
     {(a, b). a \<in> set asgs \<and> b \<in> set asgs \<and>
        (\<exists>n refs. reference_name b = Inr n \<and> references a = Inr refs \<and> n \<in> refs)}"

text \<open>
  The invariant of the loop, for the proofs: an order in which no name references
  itself or a name after it, and the state of the loop with respect to the graph \<open>G\<close> it
  started from.
\<close>

fun dependencies_first :: "graph \<Rightarrow> string list \<Rightarrow> bool" where
  "dependencies_first G [] = True"
| "dependencies_first G (n # rest) =
     ((\<forall>m\<in>set (n # rest). (n, m) \<notin> edges G) \<and> dependencies_first G rest)"

definition loop_inv :: "graph \<Rightarrow> graph \<Rightarrow> string list \<Rightarrow> string list \<Rightarrow> bool" where
  "loop_inv G g roots order \<longleftrightarrow>
     g = filter (\<lambda>(k, s). k \<notin> set order) G
   \<and> distinct (roots @ order)
   \<and> (\<forall>r\<in>set roots \<union> set order. \<not> has_predecessor g r)
   \<and> (\<forall>k\<in>fst ` set g. \<not> has_predecessor g k \<longrightarrow> k \<in> set roots)
   \<and> dependencies_first G order"

text \<open>
  Scenarios 3 and 4 of the specification: \<^verbatim>\<open>A ::= SEQUENCE { x B }\<close>, \<^verbatim>\<open>B ::= INTEGER\<close>,
  \<^verbatim>\<open>C ::= SEQUENCE { y A }\<close>, and the \<^verbatim>\<open>B ::= SEQUENCE { y A }\<close> that closes a cycle with
  \<open>A\<close>.
\<close>

definition assignment_A :: SemaNode where
  "assignment_A = TypeAssignment ''A'' (ConstructedType SequenceType ''SEQUENCE''
     [ComponentType ''x'' (DefinedType None ''B'' None) PyNone False])"

definition assignment_B :: SemaNode where
  "assignment_B = TypeAssignment ''B'' (SimpleType ''INTEGER'' None)"

definition assignment_C :: SemaNode where
  "assignment_C = TypeAssignment ''C'' (ConstructedType SequenceType ''SEQUENCE''
     [ComponentType ''y'' (DefinedType None ''A'' None) PyNone False])"

definition cyclic_B :: SemaNode where
  "cyclic_B = TypeAssignment ''B'' (ConstructedType SequenceType ''SEQUENCE''
     [ComponentType ''y'' (DefinedType None ''A'' None) PyNone False])"

section \<open>Tag implicitness\<close>

text \<open>
  C6. \<^verbatim>\<open>resolve_tag_implicitness\<close> returns a specified implicitness verbatim; for an
  unspecified one it returns EXPLICIT when the tagged type is a CHOICE, whatever the
  module's default; otherwise IMPLICIT when the module's default is AUTOMATIC, EXPLICIT
  when the module has no default, and the module's default in the remaining cases.
\<close>

theorem resolve_tag_implicitness_cases:
  "resolve_tag_implicitness self tag_implicitness tagged_type_decl =
     (if tag_implicitness \<noteq> None then the tag_implicitness
      else if isinstance_ChoiceType tagged_type_decl then EXPLICIT
      else if tag_default self = Some AUTOMATIC then IMPLICIT
      else if tag_default self = None then EXPLICIT
      else the (tag_default self))"
  by (auto simp: resolve_tag_implicitness_def split: option.splits)


section \<open>Automatic tagging of one constructed type\<close>

lemma str_digit: "n < 10 \<Longrightarrow> str n = [digit_char n]"
  by (simp add: str.simps)

lemma has_type_decl_set_type_decl [simp]:
  "has_type_decl (set_type_decl c t) = has_type_decl c"
  by (cases c) auto

lemma type_decl_set_type_decl [simp]:
  "has_type_decl c \<Longrightarrow> type_decl (set_type_decl c t) = Some t"
  by (cases c) auto

lemma wrap_children_untouched:
  "filter has_type_decl cs = [] \<Longrightarrow> wrap_children i cs = cs"
  by (induction cs arbitrary: i) (auto split: if_splits)

lemma wrap_children_tagged:
  "filter has_type_decl cs \<noteq> [] \<Longrightarrow>
   list_ex isinstance_TaggedType (map type_decl (filter has_type_decl (wrap_children i cs)))"
  by (induction cs arbitrary: i) auto

lemma wrap_children_append:
  "wrap_children i (xs @ ys) =
     wrap_children i xs @ wrap_children (i + length (filter has_type_decl xs)) ys"
  by (induction xs arbitrary: i) auto

lemma length_wrap_children [simp]: "length (wrap_children i cs) = length cs"
  by (induction cs arbitrary: i) auto

lemma auto_tag_twice: "auto_tag (auto_tag n) = auto_tag n"
proof (cases n)
  case (ConstructedType k tn cs)
  show ?thesis
  proof (cases "filter has_type_decl cs = []")
    case True
    then show ?thesis
      using ConstructedType by (simp add: wrap_children_untouched Let_def)
  next
    case False
    then show ?thesis
      using ConstructedType wrap_children_tagged [OF False, of 0] by (simp add: Let_def)
  qed
qed simp_all

text \<open>
  C5. \<^verbatim>\<open>auto_tag\<close> leaves a constructed type unchanged when the \<^verbatim>\<open>type_decl\<close> of one of
  its components is already a \<^verbatim>\<open>TaggedType\<close>, and applying it twice gives what applying
  it once gives.
\<close>

theorem auto_tag_idempotent:
  "(list_ex isinstance_TaggedType (map type_decl (filter has_type_decl cs)) \<longrightarrow>
      auto_tag (ConstructedType k tn cs) = ConstructedType k tn cs)
   \<and> auto_tag (auto_tag (ConstructedType k tn cs)) = auto_tag (ConstructedType k tn cs)"
  by (simp only: auto_tag_twice) (simp add: Let_def)

text \<open>
  The witness: \<^verbatim>\<open>SEQUENCE { a [5] INTEGER, b BOOLEAN }\<close>, whose first component is tagged
  by the user.
\<close>

theorem auto_tag_idempotent_witness:
  "list_ex isinstance_TaggedType (map type_decl (filter has_type_decl
       [ComponentType ''a''
          (TaggedType None (Some ''5'') None (Some (SimpleType ''INTEGER'' None))) PyNone False,
        ComponentType ''b'' (SimpleType ''BOOLEAN'' None) PyNone False]))
   \<and> auto_tag (ConstructedType SequenceType ''SEQUENCE''
       [ComponentType ''a''
          (TaggedType None (Some ''5'') None (Some (SimpleType ''INTEGER'' None))) PyNone False,
        ComponentType ''b'' (SimpleType ''BOOLEAN'' None) PyNone False])
     = ConstructedType SequenceType ''SEQUENCE''
       [ComponentType ''a''
          (TaggedType None (Some ''5'') None (Some (SimpleType ''INTEGER'' None))) PyNone False,
        ComponentType ''b'' (SimpleType ''BOOLEAN'' None) PyNone False]"
  using auto_tag_idempotent [of
      "[ComponentType ''a''
          (TaggedType None (Some ''5'') None (Some (SimpleType ''INTEGER'' None))) PyNone False,
        ComponentType ''b'' (SimpleType ''BOOLEAN'' None) PyNone False]"
      SequenceType "''SEQUENCE''"]
  by simp


text \<open>
  C9. A COMPONENTS OF component has the attribute \<^verbatim>\<open>type_decl\<close>, with the value \<^verbatim>\<open>None\<close>.
  When no component of a constructed type is tagged yet, \<^verbatim>\<open>auto_tag\<close> gives the
  COMPONENTS OF component a \<^verbatim>\<open>TaggedType\<close> around \<^verbatim>\<open>None\<close>, numbered with the count of the
  components with a \<^verbatim>\<open>type_decl\<close> before it, and the components after it are numbered
  one higher than they are in the constructed type without it.
\<close>

theorem auto_tag_counts_components_of:
  assumes "\<not> list_ex isinstance_TaggedType
             (map type_decl (filter has_type_decl (pre @ ComponentsOf None cot # post)))"
  shows "has_type_decl (ComponentsOf None cot) \<and> type_decl (ComponentsOf None cot) = None
    \<and> auto_tag (ConstructedType k tn (pre @ ComponentsOf None cot # post)) =
        ConstructedType k tn
          (wrap_children 0 pre
           @ ComponentsOf
               (Some (TaggedType None (Some (str (length (filter has_type_decl pre)))) None None))
               cot
           # wrap_children (Suc (length (filter has_type_decl pre))) post)
    \<and> auto_tag (ConstructedType k tn (pre @ post)) =
        ConstructedType k tn
          (wrap_children 0 pre @ wrap_children (length (filter has_type_decl pre)) post)"
proof -
  have "\<not> list_ex isinstance_TaggedType (map type_decl (filter has_type_decl (pre @ post)))"
    using assms by (auto simp: list_ex_iff)
  then show ?thesis
    using assms by (simp add: Let_def wrap_children_append)
qed

text \<open>
  The witness: \<^verbatim>\<open>SEQUENCE { a INTEGER, COMPONENTS OF T, b BOOLEAN }\<close>. The COMPONENTS OF
  component gets the number 1 and \<open>b\<close> the number 2.
\<close>

theorem auto_tag_counts_components_of_witness:
  "auto_tag (ConstructedType SequenceType ''SEQUENCE''
     [ComponentType ''a'' (SimpleType ''INTEGER'' None) PyNone False,
      ComponentsOf None (DefinedType None ''T'' None),
      ComponentType ''b'' (SimpleType ''BOOLEAN'' None) PyNone False])
   = ConstructedType SequenceType ''SEQUENCE''
     [ComponentType ''a''
        (TaggedType None (Some ''0'') None (Some (SimpleType ''INTEGER'' None))) PyNone False,
      ComponentsOf (Some (TaggedType None (Some ''1'') None None)) (DefinedType None ''T'' None),
      ComponentType ''b''
        (TaggedType None (Some ''2'') None (Some (SimpleType ''BOOLEAN'' None))) PyNone False]"
  using auto_tag_counts_components_of [of
      "[ComponentType ''a'' (SimpleType ''INTEGER'' None) PyNone False]"
      "DefinedType None ''T'' None"
      "[ComponentType ''b'' (SimpleType ''BOOLEAN'' None) PyNone False]"
      SequenceType "''SEQUENCE''"]
  by (simp add: str_digit digit_char_def)

section \<open>Selection types\<close>

lemma matching_component_has_type:
  "identifier_attr c = Inr (Some ident) \<Longrightarrow> has_type_decl c \<Longrightarrow> type_decl c \<noteq> None"
  by (cases c) auto

lemma scan_components_null:
  "scan_components ident cs = Inr None \<Longrightarrow> \<forall>c\<in>set cs. identifier_attr c \<noteq> Inr (Some ident)"
proof (induction cs)
  case Nil
  then show ?case by simp
next
  case (Cons c cs)
  show ?case
  proof (cases "identifier_attr c")
    case (Inl e)
    with Cons.prems show ?thesis by simp
  next
    case (Inr i)
    show ?thesis
    proof (cases "i = Some ident")
      case True
      with Inr Cons.prems matching_component_has_type [of c ident] show ?thesis
        by (auto split: if_splits)
    next
      case False
      with Inr Cons show ?thesis by auto
    qed
  qed
qed

text \<open>
  C10. \<^verbatim>\<open>resolve_selection_type\<close> returns \<^verbatim>\<open>None\<close> only for a selection type whose type
  name is a key of \<^verbatim>\<open>user_types()\<close> and whose identifier is the identifier of none of the
  components of the type found there. When the type name is not a key of
  \<^verbatim>\<open>user_types()\<close>, the call raises (the \<^verbatim>\<open>KeyError\<close> of the lookup in \<^verbatim>\<open>get_type_decl\<close>).
\<close>

theorem resolve_selection_type_null:
  "(resolve_selection_type self sel = Inr None \<longrightarrow>
      (\<exists>ident td tn choice_type cs.
          sel = SelectionType ident td \<and> type_name td = Inr tn
        \<and> user_types self tn = Some choice_type \<and> components choice_type = Inr cs
        \<and> (\<forall>c\<in>set cs. identifier_attr c \<noteq> Inr (Some ident))))
   \<and> (type_name td' = Inr tn' \<and> user_types self tn' = None \<longrightarrow>
        resolve_selection_type self (SelectionType ident' td') = Inl KeyError)"
proof (intro conjI impI)
  assume null: "resolve_selection_type self sel = Inr None"
  then obtain ident td where sel: "sel = SelectionType ident td"
    by (cases sel) auto
  from null sel obtain tn where tn: "type_name td = Inr tn"
    by (cases "type_name td") auto
  from null sel tn obtain choice_type where ch: "user_types self tn = Some choice_type"
    by (cases "user_types self tn") (auto simp: get_type_decl_def)
  from null sel tn ch obtain cs where cs: "components choice_type = Inr cs"
    by (cases "components choice_type") (auto simp: get_type_decl_def)
  from null sel tn ch cs have "scan_components ident cs = Inr None"
    by (simp add: get_type_decl_def)
  then have "\<forall>c\<in>set cs. identifier_attr c \<noteq> Inr (Some ident)"
    by (rule scan_components_null)
  with sel tn ch cs
  show "\<exists>ident td tn choice_type cs.
          sel = SelectionType ident td \<and> type_name td = Inr tn
        \<and> user_types self tn = Some choice_type \<and> components choice_type = Inr cs
        \<and> (\<forall>c\<in>set cs. identifier_attr c \<noteq> Inr (Some ident))"
    by blast
next
  assume "type_name td' = Inr tn' \<and> user_types self tn' = None"
  then show "resolve_selection_type self (SelectionType ident' td') = Inl KeyError"
    by (simp add: get_type_decl_def)
qed

text \<open>
  The witness: the module of \<^verbatim>\<open>C ::= CHOICE { a INTEGER, b BOOLEAN }\<close>. The selection
  \<^verbatim>\<open>c < C\<close> resolves to \<^verbatim>\<open>None\<close>, and \<^verbatim>\<open>a < D\<close> raises.
\<close>

theorem resolve_selection_type_null_witness:
  "resolve_selection_type
     \<lparr>name = ''M'', tag_default = Some EXPLICIT, exports = PyNone, module_imports = PyNone,
      assignments = [TypeAssignment ''C'' (ConstructedType ChoiceType ''CHOICE''
        [NamedType ''a'' (SimpleType ''INTEGER'' None),
         NamedType ''b'' (SimpleType ''BOOLEAN'' None)])]\<rparr>
     (SelectionType ''c'' (DefinedType None ''C'' None)) = Inr None
   \<and> resolve_selection_type
     \<lparr>name = ''M'', tag_default = Some EXPLICIT, exports = PyNone, module_imports = PyNone,
      assignments = [TypeAssignment ''C'' (ConstructedType ChoiceType ''CHOICE''
        [NamedType ''a'' (SimpleType ''INTEGER'' None),
         NamedType ''b'' (SimpleType ''BOOLEAN'' None)])]\<rparr>
     (SelectionType ''a'' (DefinedType None ''D'' None)) = Inl KeyError"
  using resolve_selection_type_null [of
      "\<lparr>name = ''M'', tag_default = Some EXPLICIT, exports = PyNone, module_imports = PyNone,
        assignments = [TypeAssignment ''C'' (ConstructedType ChoiceType ''CHOICE''
          [NamedType ''a'' (SimpleType ''INTEGER'' None),
           NamedType ''b'' (SimpleType ''BOOLEAN'' None)])]\<rparr>"
      "SelectionType ''c'' (DefinedType None ''C'' None)"
      "DefinedType None ''D'' None" "''D''" "''a''"]
  by (simp add: user_types_def get_type_decl_def)

section \<open>Import clauses of one module\<close>

lemma setdefault_extend_fresh:
  "\<forall>e\<in>set d. fst (fst e) \<noteq> fst key \<Longrightarrow> setdefault_extend d key symbols = d @ [(key, symbols)]"
  by (induction d) auto

lemma Imports_loop_appends:
  "\<forall>e\<in>set d. fst (fst e) < next_id \<Longrightarrow>
   map snd (Imports_loop next_id d elements) = map snd d @ map fst elements"
proof (induction elements arbitrary: next_id d)
  case Nil
  then show ?case by simp
next
  case (Cons c elements)
  obtain symbols module oid where c: "c = (symbols, module, oid)"
    by (cases c) auto
  let ?key = "(next_id, GlobalModuleReference module oid)"
  have fresh: "\<forall>e\<in>set d. fst (fst e) \<noteq> fst ?key"
    using Cons.prems by auto
  have "\<forall>e\<in>set (d @ [(?key, symbols)]). fst (fst e) < Suc next_id"
    using Cons.prems by (auto simp: less_Suc_eq)
  from Cons.IH [OF this] show ?case
    by (simp add: c setdefault_extend_fresh [OF fresh])
qed

text \<open>
  C3 (the code does not merge). Two import clauses that name the same module \<open>M\<close> give
  two entries, each under its own \<^verbatim>\<open>GlobalModuleReference\<close> key, not the single entry with
  the symbols \<open>A\<close> and \<open>B\<close> that the claim describes.
\<close>

theorem Imports_init_keeps_clauses_apart:
  "Imports_init [([''A''], ''M'', PyNone), ([''B''], ''M'', PyNone)] =
     Imports [(GlobalModuleReference ''M'' PyNone, [''A'']),
              (GlobalModuleReference ''M'' PyNone, [''B''])]"
  by (simp add: Imports_init_def)


section \<open>Automatic tagging of a module\<close>

lemma descendants_set:
  "set (descendants n) = (\<Union>c\<in>set (children n). insert c (set (descendants c)))"
  by (subst descendants.simps) auto

lemma descendants_TaggedType:
  "set (descendants (TaggedType cn cnum impl td)) =
     (\<Union>t\<in>set_option td. insert t (set (descendants t)))"
  by (subst descendants_set) (cases td; simp)

lemma descendants_ComponentsOf:
  "set (descendants (ComponentsOf td cot)) =
     (\<Union>t\<in>set_option td. insert t (set (descendants t))) \<union> insert cot (set (descendants cot))"
  by (subst descendants_set) (cases td; auto)

lemma descendants_wrapped:
  "has_type_decl x \<Longrightarrow>
   set (descendants (set_type_decl x (TaggedType a b c (type_decl x)))) =
     insert (TaggedType a b c (type_decl x)) (set (descendants x))"
proof (cases x)
  case (TypeAssignment tn td)
  then show ?thesis
    by (simp add: descendants_set [of "TypeAssignment tn td"]
        descendants_set [of "TypeAssignment tn (TaggedType a b c (Some td))"]
        descendants_TaggedType)
next
  case (ValueAssignment vn td v)
  then show ?thesis
    by (simp add: descendants_set [of "ValueAssignment vn td v"]
        descendants_set [of "ValueAssignment vn (TaggedType a b c (Some td)) v"]
        descendants_TaggedType)
next
  case (CollectionType ck sc td)
  then show ?thesis
    by (simp add: descendants_set [of "CollectionType ck sc td"]
        descendants_set [of "CollectionType ck sc (TaggedType a b c (Some td))"]
        descendants_TaggedType)
next
  case (TaggedType cn cnum impl td)
  then show ?thesis
    by (simp add: descendants_TaggedType)
next
  case (SelectionType ident td)
  then show ?thesis
    by (simp add: descendants_set [of "SelectionType ident td"]
        descendants_set [of "SelectionType ident (TaggedType a b c (Some td))"]
        descendants_TaggedType)
next
  case (ComponentType ident td dv opt)
  then show ?thesis
    by (simp add: descendants_set [of "ComponentType ident td dv opt"]
        descendants_set [of "ComponentType ident (TaggedType a b c (Some td)) dv opt"]
        descendants_TaggedType)
next
  case (ComponentsOf td cot)
  then show ?thesis
    by (auto simp: descendants_ComponentsOf descendants_TaggedType)
next
  case (NamedType ident td)
  then show ?thesis
    by (simp add: descendants_set [of "NamedType ident td"]
        descendants_set [of "NamedType ident (TaggedType a b c (Some td))"]
        descendants_TaggedType)
qed simp_all

lemma auto_tag_keeps_class:
  "isinstance_ConstructedType (auto_tag n) = isinstance_ConstructedType n"
  "isinstance_TaggedType (Some (auto_tag n)) = isinstance_TaggedType (Some n)"
  "has_type_decl (auto_tag n) = has_type_decl n"
  by (cases n; simp add: Let_def)+

lemma auto_tag_tree_keeps_class:
  "isinstance_ConstructedType (auto_tag_tree n) = isinstance_ConstructedType n"
  "isinstance_TaggedType (Some (auto_tag_tree n)) = isinstance_TaggedType (Some n)"
  "has_type_decl (auto_tag_tree n) = has_type_decl n"
  by (cases n; simp add: Let_def)+

lemma type_decl_auto_tag_tree:
  "type_decl (auto_tag_tree c) = map_option auto_tag_tree (type_decl c)"
  by (cases c) (simp_all add: Let_def)

lemma isinstance_TaggedType_map_option:
  "isinstance_TaggedType (map_option auto_tag_tree t) = isinstance_TaggedType t"
  by (cases t) (simp_all add: auto_tag_tree_keeps_class)

lemma already_tagged_auto_tag_tree:
  "list_ex isinstance_TaggedType (map type_decl (filter has_type_decl (map auto_tag_tree cs)))
   = list_ex isinstance_TaggedType (map type_decl (filter has_type_decl cs))"
  by (induction cs)
    (auto simp: auto_tag_tree_keeps_class type_decl_auto_tag_tree isinstance_TaggedType_map_option)

lemma auto_tag_tree_ConstructedType:
  "auto_tag_tree (ConstructedType k tn cs) =
     (if list_ex isinstance_TaggedType (map type_decl (filter has_type_decl cs))
      then ConstructedType k tn (map auto_tag_tree cs)
      else ConstructedType k tn (wrap_children 0 (map auto_tag_tree cs)))"
  by (simp add: Let_def already_tagged_auto_tag_tree)

lemma wrap_children_nth:
  "j < length cs \<Longrightarrow>
   wrap_children i cs ! j =
     (if has_type_decl (cs ! j)
      then set_type_decl (cs ! j)
             (TaggedType None (Some (str (i + length (filter has_type_decl (take j cs))))) None
                (type_decl (cs ! j)))
      else cs ! j)"
proof (induction cs arbitrary: i j)
  case Nil
  then show ?case by simp
next
  case (Cons c cs)
  show ?case
  proof (cases j)
    case 0
    then show ?thesis by simp
  next
    case (Suc j')
    with Cons.prems have "j' < length cs" by simp
    from Cons.IH [OF this] Suc show ?thesis by simp
  qed
qed

lemma wrap_children_member:
  "c' \<in> set (wrap_children i xs) \<Longrightarrow>
   \<exists>x\<in>set xs. c' = x \<or> (has_type_decl x \<and> (\<exists>s. c' =
       set_type_decl x (TaggedType None (Some s) None (type_decl x))))"
  by (induction xs arbitrary: i) (auto split: if_splits)

lemma maybe_nodes_map_maybe: "maybe_nodes (map_maybe f m) = map f (maybe_nodes m)"
  by (cases m) auto

lemma children_auto_tag_tree:
  "\<not> isinstance_ConstructedType n \<Longrightarrow> children (auto_tag_tree n) = map auto_tag_tree (children n)"
  by (cases n) (auto simp: maybe_nodes_map_maybe split: option.splits)

lemma children_auto_tag_tree_member:
  assumes "c' \<in> set (children (auto_tag_tree n))"
  shows "\<exists>c\<in>set (children n). c' = auto_tag_tree c \<or>
           (has_type_decl c \<and> (\<exists>s. c' = set_type_decl (auto_tag_tree c)
               (TaggedType None (Some s) None (type_decl (auto_tag_tree c)))))"
proof (cases "isinstance_ConstructedType n")
  case False
  with assms have "c' \<in> auto_tag_tree ` set (children n)"
    by (simp add: children_auto_tag_tree)
  then show ?thesis by blast
next
  case True
  then obtain k tn cs where n: "n = ConstructedType k tn cs" by (cases n) auto
  show ?thesis
  proof (cases "list_ex isinstance_TaggedType (map type_decl (filter has_type_decl cs))")
    case True
    then have "auto_tag_tree n = ConstructedType k tn (map auto_tag_tree cs)"
      unfolding n auto_tag_tree_ConstructedType by simp
    with assms have "c' \<in> auto_tag_tree ` set (children n)"
      by (simp add: n)
    then show ?thesis by blast
  next
    case False
    then have "auto_tag_tree n = ConstructedType k tn (wrap_children 0 (map auto_tag_tree cs))"
      unfolding n auto_tag_tree_ConstructedType by simp
    with assms have "c' \<in> set (wrap_children 0 (map auto_tag_tree cs))"
      by simp
    from wrap_children_member [OF this] n show ?thesis
      by (auto simp: auto_tag_tree_keeps_class)
  qed
qed

lemma constructed_after_auto_tag_tree:
  "d' \<in> insert (auto_tag_tree n) (set (descendants (auto_tag_tree n))) \<Longrightarrow>
   isinstance_ConstructedType d' \<Longrightarrow>
   \<exists>d\<in>insert n (set (descendants n)). isinstance_ConstructedType d \<and> d' = auto_tag_tree d"
proof (induction n arbitrary: d' rule: descendants.induct)
  case (1 n)
  show ?case
  proof (cases "d' = auto_tag_tree n")
    case True
    with "1.prems" show ?thesis by (auto simp: auto_tag_tree_keeps_class)
  next
    case False
    with "1.prems" have "d' \<in> set (descendants (auto_tag_tree n))" by simp
    then obtain c' where c': "c' \<in> set (children (auto_tag_tree n))"
      and d': "d' \<in> insert c' (set (descendants c'))"
      by (auto simp: descendants_set [of "auto_tag_tree n"])
    from children_auto_tag_tree_member [OF c'] obtain c where c: "c \<in> set (children n)"
      and shape: "c' = auto_tag_tree c \<or>
           (has_type_decl c \<and> (\<exists>s. c' = set_type_decl (auto_tag_tree c)
               (TaggedType None (Some s) None (type_decl (auto_tag_tree c)))))"
      by blast
    have sub: "insert c (set (descendants c)) \<subseteq> set (descendants n)"
      using c by (auto simp: descendants_set [of n])
    from shape have "d' \<in> insert (auto_tag_tree c) (set (descendants (auto_tag_tree c)))"
    proof
      assume "c' = auto_tag_tree c"
      with d' show ?thesis by simp
    next
      assume w: "has_type_decl c \<and> (\<exists>s. c' = set_type_decl (auto_tag_tree c)
               (TaggedType None (Some s) None (type_decl (auto_tag_tree c))))"
      then obtain s where s: "c' = set_type_decl (auto_tag_tree c)
               (TaggedType None (Some s) None (type_decl (auto_tag_tree c)))" by blast
      have h: "has_type_decl (auto_tag_tree c)" using w by (simp add: auto_tag_tree_keeps_class)
      have nc: "\<not> isinstance_ConstructedType c'"
        using h s by (cases "auto_tag_tree c") auto
      from d' nc "1.prems"(2) have "d' \<in> set (descendants c')" by auto
      with s descendants_wrapped [OF h] "1.prems"(2) show ?thesis by auto
    qed
    from "1.IH" [OF c this "1.prems"(2)] sub show ?thesis by blast
  qed
qed

lemma Module_children_build:
  "Module_children
     (m\<lparr>exports := map_maybe auto_tag_tree (exports m),
        module_imports := map_maybe auto_tag_tree (module_imports m),
        assignments := map auto_tag_tree (assignments m)\<rparr>)
   = map auto_tag_tree (Module_children m)"
  by (simp add: Module_children_def maybe_nodes_map_maybe)

lemma ordinal_auto_tag_tree:
  "length (filter has_type_decl (take j (map auto_tag_tree cs))) =
   length (filter has_type_decl (take j cs))"
  by (simp add: take_map filter_map comp_def auto_tag_tree_keeps_class)

text \<open>
  C1 (amended). In a module whose tag default is AUTOMATIC, every constructed type below
  the module after \<^verbatim>\<open>build_semantic_model\<close> is a constructed type that was below the
  module before, with its descendants processed, and either one of its components had a
  \<^verbatim>\<open>TaggedType\<close> as \<^verbatim>\<open>type_decl\<close> before, or every component with a \<^verbatim>\<open>type_decl\<close> now has as
  \<^verbatim>\<open>type_decl\<close> a \<^verbatim>\<open>TaggedType\<close> around the old one, with no class name, no implicitness,
  and as class number the string form of the number of components with a \<^verbatim>\<open>type_decl\<close>
  that stand before it (components without a \<^verbatim>\<open>type_decl\<close>, such as extension markers,
  are not counted); the components without a \<^verbatim>\<open>type_decl\<close> are unchanged.
\<close>

theorem build_semantic_model_auto_tags:
  assumes "i < length root" and "tag_default (root ! i) = Some AUTOMATIC"
    and "d' \<in> set (Module_descendants (build_semantic_model root ! i))"
    and "isinstance_ConstructedType d'"
  shows "\<exists>k tn cs cs'.
      ConstructedType k tn cs \<in> set (Module_descendants (root ! i))
    \<and> d' = auto_tag_tree (ConstructedType k tn cs)
    \<and> d' = ConstructedType k tn cs' \<and> length cs' = length cs
    \<and> (list_ex isinstance_TaggedType (map type_decl (filter has_type_decl cs))
       \<or> (\<forall>j<length cs.
             if has_type_decl (cs ! j)
             then has_type_decl (cs' ! j)
               \<and> type_decl (cs' ! j) =
                   Some (TaggedType None
                     (Some (str (length (filter has_type_decl (take j cs))))) None
                     (map_option auto_tag_tree (type_decl (cs ! j))))
             else cs' ! j = auto_tag_tree (cs ! j)))"
proof -
  let ?m = "root ! i"
  have "build_semantic_model root ! i =
      ?m\<lparr>exports := map_maybe auto_tag_tree (exports ?m),
         module_imports := map_maybe auto_tag_tree (module_imports ?m),
         assignments := map auto_tag_tree (assignments ?m)\<rparr>"
    using assms(1,2) by (simp add: build_semantic_model_def)
  then have "Module_children (build_semantic_model root ! i) =
      map auto_tag_tree (Module_children ?m)"
    by (simp only: Module_children_build)
  with assms(3) obtain c where c: "c \<in> set (Module_children ?m)"
    and d': "d' \<in> insert (auto_tag_tree c) (set (descendants (auto_tag_tree c)))"
    by (auto simp: Module_descendants_def)
  from constructed_after_auto_tag_tree [OF d' assms(4)]
  obtain d where d: "d \<in> insert c (set (descendants c))"
    and cd: "isinstance_ConstructedType d" and eq: "d' = auto_tag_tree d"
    by blast
  from cd obtain k tn cs where shape: "d = ConstructedType k tn cs"
    by (cases d) auto
  have before: "ConstructedType k tn cs \<in> set (Module_descendants ?m)"
    using c d shape by (auto simp: Module_descendants_def)
  show ?thesis
  proof (cases "list_ex isinstance_TaggedType (map type_decl (filter has_type_decl cs))")
    case True
    have after: "d' = ConstructedType k tn (map auto_tag_tree cs)"
      unfolding eq shape auto_tag_tree_ConstructedType using True by simp
    show ?thesis
    proof (intro exI conjI)
      show "ConstructedType k tn cs \<in> set (Module_descendants (root ! i))"
        by (rule before)
      show "d' = auto_tag_tree (ConstructedType k tn cs)"
        unfolding eq shape ..
      show "d' = ConstructedType k tn (map auto_tag_tree cs)"
        by (rule after)
      show "length (map auto_tag_tree cs) = length cs"
        by simp
      show "list_ex isinstance_TaggedType (map type_decl (filter has_type_decl cs))
       \<or> (\<forall>j<length cs.
             if has_type_decl (cs ! j)
             then has_type_decl (map auto_tag_tree cs ! j)
               \<and> type_decl (map auto_tag_tree cs ! j) =
                   Some (TaggedType None
                     (Some (str (length (filter has_type_decl (take j cs))))) None
                     (map_option auto_tag_tree (type_decl (cs ! j))))
             else map auto_tag_tree cs ! j = auto_tag_tree (cs ! j))"
        using True ..
    qed
  next
    case False
    have after: "d' = ConstructedType k tn (wrap_children 0 (map auto_tag_tree cs))"
      unfolding eq shape auto_tag_tree_ConstructedType using False by simp
    have tags: "\<forall>j<length cs.
             if has_type_decl (cs ! j)
             then has_type_decl (wrap_children 0 (map auto_tag_tree cs) ! j)
               \<and> type_decl (wrap_children 0 (map auto_tag_tree cs) ! j) =
                   Some (TaggedType None
                     (Some (str (length (filter has_type_decl (take j cs))))) None
                     (map_option auto_tag_tree (type_decl (cs ! j))))
             else wrap_children 0 (map auto_tag_tree cs) ! j = auto_tag_tree (cs ! j)"
      by (simp add: wrap_children_nth auto_tag_tree_keeps_class ordinal_auto_tag_tree
          type_decl_auto_tag_tree)
    show ?thesis
    proof (intro exI conjI)
      show "ConstructedType k tn cs \<in> set (Module_descendants (root ! i))"
        by (rule before)
      show "d' = auto_tag_tree (ConstructedType k tn cs)"
        unfolding eq shape ..
      show "d' = ConstructedType k tn (wrap_children 0 (map auto_tag_tree cs))"
        by (rule after)
      show "length (wrap_children 0 (map auto_tag_tree cs)) = length cs"
        by simp
      show "list_ex isinstance_TaggedType (map type_decl (filter has_type_decl cs))
       \<or> (\<forall>j<length cs.
             if has_type_decl (cs ! j)
             then has_type_decl (wrap_children 0 (map auto_tag_tree cs) ! j)
               \<and> type_decl (wrap_children 0 (map auto_tag_tree cs) ! j) =
                   Some (TaggedType None
                     (Some (str (length (filter has_type_decl (take j cs))))) None
                     (map_option auto_tag_tree (type_decl (cs ! j))))
             else wrap_children 0 (map auto_tag_tree cs) ! j = auto_tag_tree (cs ! j))"
        using tags ..
    qed
  qed
qed

text \<open>The witness: scenario 1, whose components get the numbers 0, 1 and 2.\<close>

theorem build_semantic_model_auto_tags_witness:
  "build_semantic_model [scenario_1] ! 0 =
     scenario_1\<lparr>assignments := [TypeAssignment ''T'' scenario_1_tagged]\<rparr>
   \<and> (\<exists>k tn cs cs'.
      ConstructedType k tn cs \<in> set (Module_descendants ([scenario_1] ! 0))
    \<and> scenario_1_tagged = auto_tag_tree (ConstructedType k tn cs)
    \<and> scenario_1_tagged = ConstructedType k tn cs' \<and> length cs' = length cs
    \<and> (list_ex isinstance_TaggedType (map type_decl (filter has_type_decl cs))
       \<or> (\<forall>j<length cs.
             if has_type_decl (cs ! j)
             then has_type_decl (cs' ! j)
               \<and> type_decl (cs' ! j) =
                   Some (TaggedType None
                     (Some (str (length (filter has_type_decl (take j cs))))) None
                     (map_option auto_tag_tree (type_decl (cs ! j))))
             else cs' ! j = auto_tag_tree (cs ! j))))"
proof
  show built: "build_semantic_model [scenario_1] ! 0 =
     scenario_1\<lparr>assignments := [TypeAssignment ''T'' scenario_1_tagged]\<rparr>"
    by (simp add: build_semantic_model_def scenario_1_def scenario_1_tagged_def str_digit
        digit_char_def)
  have "scenario_1_tagged \<in> set (Module_descendants
      (scenario_1\<lparr>assignments := [TypeAssignment ''T'' scenario_1_tagged]\<rparr>))"
    by (simp add: Module_descendants_def Module_children_def scenario_1_def
        descendants_set [of "TypeAssignment ''T'' scenario_1_tagged"])
  then have mem: "scenario_1_tagged \<in> set (Module_descendants
      (build_semantic_model [scenario_1] ! 0))"
    by (simp only: built)
  show "\<exists>k tn cs cs'.
      ConstructedType k tn cs \<in> set (Module_descendants ([scenario_1] ! 0))
    \<and> scenario_1_tagged = auto_tag_tree (ConstructedType k tn cs)
    \<and> scenario_1_tagged = ConstructedType k tn cs' \<and> length cs' = length cs
    \<and> (list_ex isinstance_TaggedType (map type_decl (filter has_type_decl cs))
       \<or> (\<forall>j<length cs.
             if has_type_decl (cs ! j)
             then has_type_decl (cs' ! j)
               \<and> type_decl (cs' ! j) =
                   Some (TaggedType None
                     (Some (str (length (filter has_type_decl (take j cs))))) None
                     (map_option auto_tag_tree (type_decl (cs ! j))))
             else cs' ! j = auto_tag_tree (cs ! j)))"
  proof (rule build_semantic_model_auto_tags [OF _ _ mem])
    show "0 < length [scenario_1]" by simp
    show "tag_default ([scenario_1] ! 0) = Some AUTOMATIC" by (simp add: scenario_1_def)
    show "isinstance_ConstructedType scenario_1_tagged" by (simp add: scenario_1_tagged_def)
  qed
qed

text \<open>
  C1 as stated fails: in \<^verbatim>\<open>T ::= SEQUENCE { a INTEGER, ..., b BOOLEAN }\<close> the component
  \<open>b\<close> stands at index 2 of the components, after the extension marker, and is given the
  class number \<open>1\<close>, which is not the string form of 2.
\<close>

theorem build_semantic_model_index_counterexample:
  "build_semantic_model
     [\<lparr>name = ''M'', tag_default = Some AUTOMATIC, exports = PyNone, module_imports = PyNone,
       assignments = [TypeAssignment ''T'' (ConstructedType SequenceType ''SEQUENCE''
         [ComponentType ''a'' (SimpleType ''INTEGER'' None) PyNone False,
          ExtensionMarker,
          ComponentType ''b'' (SimpleType ''BOOLEAN'' None) PyNone False])]\<rparr>]
   = [\<lparr>name = ''M'', tag_default = Some AUTOMATIC, exports = PyNone, module_imports = PyNone,
       assignments = [TypeAssignment ''T'' (ConstructedType SequenceType ''SEQUENCE''
         [ComponentType ''a''
            (TaggedType None (Some ''0'') None (Some (SimpleType ''INTEGER'' None))) PyNone False,
          ExtensionMarker,
          ComponentType ''b''
            (TaggedType None (Some ''1'') None (Some (SimpleType ''BOOLEAN'' None)))
            PyNone False])]\<rparr>]
   \<and> str 2 = ''2''"
  by (simp add: build_semantic_model_def str_digit digit_char_def)


section \<open>Topological sort\<close>

subsection \<open>The invariant of the loop\<close>

lemma has_predecessor_iff: "has_predecessor g m \<longleftrightarrow> (\<exists>n. (n, m) \<in> edges g)"
  by (auto simp: has_predecessor_def edges_def list_ex_iff)

lemma edges_filter_subset: "edges (filter P g) \<subseteq> edges g"
  by (auto simp: edges_def)

lemma distinct_keys_unique:
  "distinct (map fst g) \<Longrightarrow> (k, s) \<in> set g \<Longrightarrow> (k, s') \<in> set g \<Longrightarrow> s = s'"
  by (metis map_of_is_SomeI option.inject)

lemma filter_popped:
  "filter (\<lambda>(k, s). k \<noteq> r) (filter (\<lambda>(k, s). k \<notin> set order) G) =
   filter (\<lambda>(k, s). k \<notin> set (r # order)) G"
  by (induction G) auto

lemma delete_filter: "AList.delete r g = filter (\<lambda>(k, s). k \<noteq> r) g"
  by (induction g) auto

lemma edges_iff: "(n, m) \<in> edges g \<longleftrightarrow> (\<exists>s. (n, s) \<in> set g \<and> m \<in> s)"
  by (simp add: edges_def)

lemma iterates_sets_set: "iterates_sets enum \<Longrightarrow> finite S \<Longrightarrow> set (enum S) = S"
  unfolding iterates_sets_def by blast

lemma iterates_sets_distinct: "iterates_sets enum \<Longrightarrow> finite S \<Longrightarrow> distinct (enum S)"
  unfolding iterates_sets_def by blast

lemma loop_inv_step:
  assumes enum: "iterates_sets enum"
    and dist: "distinct (map fst G)"
    and fin: "\<forall>(k, s)\<in>set G. finite s"
    and inv: "loop_inv G g roots order"
    and ne: "roots \<noteq> []"
  shows "loop_inv G (AList.delete (last roots) g)
           (butlast roots @
              filter (\<lambda>successor. \<not> has_predecessor (AList.delete (last roots) g) successor)
                (case map_of g (last roots) of None \<Rightarrow> [] | Some s \<Rightarrow> enum s))
           (last roots # order)"
proof -
  let ?r = "last roots"
  let ?rs = "butlast roots"
  let ?g' = "AList.delete ?r g"
  let ?succ = "case map_of g ?r of None \<Rightarrow> [] | Some s \<Rightarrow> enum s"
  let ?new = "filter (\<lambda>successor. \<not> has_predecessor ?g' successor) ?succ"
  have roots: "roots = ?rs @ [?r]" using ne by simp
  note all = inv [unfolded loop_inv_def]
  note g = all [THEN conjunct1]
  note d = all [THEN conjunct2, THEN conjunct1]
  note np = all [THEN conjunct2, THEN conjunct2, THEN conjunct1]
  note complete = all [THEN conjunct2, THEN conjunct2, THEN conjunct2, THEN conjunct1]
  note df = all [THEN conjunct2, THEN conjunct2, THEN conjunct2, THEN conjunct2]
  have distg: "distinct (map fst g)"
    by (subst g) (rule distinct_map_filter [OF dist])
  have "set g \<subseteq> set G" by (subst g) simp
  with fin have fing: "\<forall>(k, s)\<in>set g. finite s" by blast
  have r_roots: "?r \<in> set roots" using ne by simp
  have r_order: "?r \<notin> set order" using d r_roots by auto
  have g': "?g' = filter (\<lambda>(k, s). k \<noteq> ?r) g"
    by (rule delete_filter)
  have sub: "edges ?g' \<subseteq> edges g"
    unfolding g' by (rule edges_filter_subset)
  have succ_set: "set ?succ = {m. (?r, m) \<in> edges g}" and succ_dist: "distinct ?succ"
  proof -
    show "set ?succ = {m. (?r, m) \<in> edges g}"
    proof (cases "map_of g ?r")
      case None
      then have "?r \<notin> fst ` set g" by (simp add: map_of_eq_None_iff)
      then have "\<And>s. (?r, s) \<notin> set g" by (metis fst_conv image_eqI)
      then have "{m. (?r, m) \<in> edges g} = {}" by (simp add: edges_iff)
      with None show ?thesis by simp
    next
      case (Some s)
      then have mem: "(?r, s) \<in> set g" by (rule map_of_SomeD)
      with fing have "finite s" by blast
      then have "set (enum s) = s" by (rule iterates_sets_set [OF enum])
      moreover have "{m. (?r, m) \<in> edges g} = s"
      proof -
        have "\<And>s'. (?r, s') \<in> set g \<Longrightarrow> s' = s"
          using distinct_keys_unique [OF distg _ mem] by blast
        with mem show ?thesis unfolding edges_iff by blast
      qed
      ultimately show ?thesis using Some by simp
    qed
    show "distinct ?succ"
    proof (cases "map_of g ?r")
      case None
      then show ?thesis by simp
    next
      case (Some s)
      then have "(?r, s) \<in> set g" by (rule map_of_SomeD)
      with fing have "finite s" by blast
      then have "distinct (enum s)" by (rule iterates_sets_distinct [OF enum])
      with Some show ?thesis by simp
    qed
  qed
  have new_fresh: "m \<notin> set roots \<union> set order" if "m \<in> set ?succ" for m
  proof -
    from that have "(?r, m) \<in> edges g" by (simp only: succ_set) simp
    then have "has_predecessor g m" by (auto simp: has_predecessor_iff)
    with np show ?thesis by blast
  qed
  have 1: "?g' = filter (\<lambda>(k, s). k \<notin> set (?r # order)) G"
    unfolding g' by (subst g) (rule filter_popped)
  have 2: "distinct ((?rs @ ?new) @ (?r # order))"
  proof -
    have setr: "set roots = set ?rs \<union> {?r}" by (subst roots) simp
    have "distinct (?rs @ [?r] @ order)" using d by (subst (asm) roots) simp
    then have a: "distinct ?rs" "distinct order" "?r \<notin> set ?rs" "?r \<notin> set order"
      "set ?rs \<inter> set order = {}" by auto
    have b: "distinct ?new" using succ_dist by simp
    have c: "set ?new \<inter> (set ?rs \<union> {?r} \<union> set order) = {}"
      using new_fresh setr by auto
    from c have c1: "set ?rs \<inter> set ?new = {}" "?r \<notin> set ?new" "set ?new \<inter> set order = {}"
      by blast+
    show ?thesis
      unfolding distinct_append using a b c1 by (simp add: Int_Un_distrib2)
  qed
  have 3: "\<forall>x\<in>set (?rs @ ?new) \<union> set (?r # order). \<not> has_predecessor ?g' x"
  proof
    fix x assume x: "x \<in> set (?rs @ ?new) \<union> set (?r # order)"
    show "\<not> has_predecessor ?g' x"
    proof (cases "x \<in> set ?new")
      case True
      then show ?thesis by simp
    next
      case False
      with x have "x \<in> set roots \<union> set order"
        using r_roots by (auto dest: in_set_butlastD)
      with np have "\<not> has_predecessor g x" by blast
      with sub show ?thesis by (auto simp: has_predecessor_iff)
    qed
  qed
  have 4: "\<forall>k\<in>fst ` set ?g'. \<not> has_predecessor ?g' k \<longrightarrow> k \<in> set (?rs @ ?new)"
  proof (intro ballI impI)
    fix k assume k: "k \<in> fst ` set ?g'" and nopred: "\<not> has_predecessor ?g' k"
    from k have kg: "k \<in> fst ` set g" and kr: "k \<noteq> ?r"
      unfolding g' by auto
    show "k \<in> set (?rs @ ?new)"
    proof (cases "has_predecessor g k")
      case False
      with complete kg have "k \<in> set roots" by blast
      with kr have "k \<in> set ?rs" by (subst (asm) roots) simp
      then show ?thesis by simp
    next
      case True
      then obtain n s where ns: "(n, s) \<in> set g" "k \<in> s"
        by (auto simp: has_predecessor_iff edges_def)
      have "n = ?r"
      proof (rule ccontr)
        assume "n \<noteq> ?r"
        with ns have "(n, s) \<in> set ?g'" unfolding g' by simp
        with ns(2) have "has_predecessor ?g' k"
          by (auto simp: has_predecessor_iff edges_def)
        with nopred show False by simp
      qed
      with ns have "(?r, k) \<in> edges g" by (auto simp: edges_def)
      then have "k \<in> set ?succ" by (simp only: succ_set) simp
      with nopred show ?thesis by simp
    qed
  qed
  have 5: "dependencies_first G (?r # order)"
  proof -
    have "(?r, m) \<notin> edges G" if m: "m \<in> set (?r # order)" for m
    proof
      assume "(?r, m) \<in> edges G"
      then obtain s where "(?r, s) \<in> set G" "m \<in> s" by (auto simp: edges_def)
      with r_order have "(?r, s) \<in> set g" by (subst g) simp
      with \<open>m \<in> s\<close> have "has_predecessor g m"
        by (auto simp: has_predecessor_iff edges_def)
      with np m r_roots show False by auto
    qed
    with df show ?thesis by simp
  qed
  from 1 2 3 4 5 show ?thesis
    unfolding loop_inv_def by (intro conjI)
qed

lemma topological_loop_inv:
  assumes "distinct (map fst G)" and "\<forall>(k, s)\<in>set G. finite s"
  shows "iterates_sets enum \<Longrightarrow> loop_inv G g roots order
     \<Longrightarrow> topological_loop enum g roots order = (g', order')
     \<Longrightarrow> loop_inv G g' [] order'"
proof (induction enum g roots order rule: topological_loop.induct)
  case (1 enum graph roots topological_order)
  show ?case
  proof (cases "roots = []")
    case True
    with "1.prems" show ?thesis by (simp add: topological_loop.simps)
  next
    case False
    note step = loop_inv_step [OF "1.prems"(1) assms "1.prems"(2) False]
    from "1.prems"(3) False have rec:
      "topological_loop enum (AList.delete (last roots) graph)
         (butlast roots @
            filter (\<lambda>successor. \<not> has_predecessor (AList.delete (last roots) graph) successor)
              (case map_of graph (last roots) of None \<Rightarrow> [] | Some s \<Rightarrow> enum s))
         (last roots # topological_order) = (g', order')"
      by (subst (asm) topological_loop.simps) (simp add: Let_def)
    note IH = "1.IH" [OF False refl refl refl "1.prems"(1)]
    show ?thesis by (rule IH [OF step rec])
  qed
qed

subsection \<open>The graph of the assignments\<close>

lemma update_keys: "fst ` set (AList.update k v d) = insert k (fst ` set d)"
  by (induction d) auto

lemma update_entries: "set (AList.update k v d) \<subseteq> insert (k, v) (set d)"
  by (induction d) auto

lemma update_fresh: "k \<notin> fst ` set d \<Longrightarrow> AList.update k v d = d @ [(k, v)]"
  by (induction d) auto

lemma foldl_update_distinct:
  "distinct (map fst d) \<Longrightarrow>
   distinct (map fst (foldl (\<lambda>d (k, v). AList.update k v d) d items))"
  by (induction items arbitrary: d) (auto simp: AList.distinct_update)

lemma foldl_update_keys:
  "fst ` set (foldl (\<lambda>d (k, v). AList.update k v d) d items) = fst ` set d \<union> fst ` set items"
proof (induction items arbitrary: d)
  case Nil
  then show ?case by simp
next
  case (Cons item items)
  obtain k v where item: "item = (k, v)" by (cases item)
  show ?case
    unfolding item by (simp add: Cons.IH update_keys)
qed

lemma foldl_update_entries:
  "set (foldl (\<lambda>d (k, v). AList.update k v d) d items) \<subseteq> set d \<union> set items"
proof (induction items arbitrary: d)
  case Nil
  then show ?case by simp
next
  case (Cons item items)
  obtain k v where item: "item = (k, v)" by (cases item)
  from Cons [of "AList.update k v d"] update_entries [of k v d] show ?case
    by (auto simp: item)
qed

lemma foldl_update_fresh:
  "distinct (map fst (d @ items)) \<Longrightarrow>
   foldl (\<lambda>d (k, v). AList.update k v d) d items = d @ items"
proof (induction items arbitrary: d)
  case Nil
  then show ?case by simp
next
  case (Cons item items)
  obtain k v where item: "item = (k, v)" by (cases item)
  from Cons.prems have "k \<notin> fst ` set d" by (auto simp: item)
  then have "AList.update k v d = d @ [(k, v)]" by (rule update_fresh)
  moreover from Cons.prems have "distinct (map fst ((d @ [(k, v)]) @ items))"
    by (simp add: item)
  ultimately show ?case using Cons.IH [of "d @ [(k, v)]"] by (simp add: item)
qed

lemma dict_distinct: "distinct (map fst (dict items))"
  by (simp add: dict_def foldl_update_distinct)

lemma dict_keys: "fst ` set (dict items) = fst ` set items"
  by (simp add: dict_def foldl_update_keys)

lemma dict_entries: "set (dict items) \<subseteq> set items"
  using foldl_update_entries [of "[]" items] by (simp add: dict_def)

lemma dict_distinct_items: "distinct (map fst items) \<Longrightarrow> dict items = items"
  using foldl_update_fresh [of "[]" items] by (simp add: dict_def)


lemma results_Inr:
  "results (map f xs) = Inr ys \<Longrightarrow> length ys = length xs \<and> (\<forall>i<length xs. f (xs ! i) = Inr (ys ! i))"
proof (induction xs arbitrary: ys)
  case Nil
  then show ?case by simp
next
  case (Cons x xs)
  from Cons.prems obtain y where y: "f x = Inr y"
    by (cases "f x") auto
  with Cons.prems obtain ys' where ys': "results (map f xs) = Inr ys'" "ys = y # ys'"
    by (cases "results (map f xs)") auto
  from Cons.IH [OF ys'(1)] y ys'(2) show ?case
    by (auto simp: nth_Cons split: nat.splits)
qed

lemma results_map_Inr: "(\<And>x. x \<in> set xs \<Longrightarrow> f x = Inr (g x)) \<Longrightarrow> results (map f xs) = Inr (map g xs)"
  by (induction xs) auto

lemma results_items:
  assumes "results (map f xs) = Inr ys"
  shows "ys = map (\<lambda>x. projr (f x)) xs"
proof -
  from results_Inr [OF assms] have "length ys = length xs"
    and "\<forall>i<length xs. f (xs ! i) = Inr (ys ! i)" by auto
  then show ?thesis by (intro nth_equalityI) auto
qed

lemma set_of_results_finite: "set_of_results rs = Inr S \<Longrightarrow> finite S"
proof (induction rs arbitrary: S)
  case Nil
  then show ?case by simp
next
  case (Cons r rs)
  then show ?case
    by (cases r; cases "set_of_results rs") auto
qed

lemma references_finite: "references a = Inr S \<Longrightarrow> finite S"
  by (auto simp: references_def split: if_splits dest: set_of_results_finite)

lemma graph_item_Inr:
  "graph_item a = Inr (n, refs) \<longleftrightarrow> reference_name a = Inr n \<and> references a = Inr refs"
  by (auto simp: graph_item_def split: sum.splits)

lemma reference_graph_items:
  assumes "reference_graph asgs = Inr G"
  shows "G = dict (map (\<lambda>a. projr (graph_item a)) asgs)"
    and "\<forall>a\<in>set asgs. \<exists>n refs. reference_name a = Inr n \<and> references a = Inr refs
           \<and> graph_item a = Inr (n, refs)"
proof -
  from assms obtain items where items: "results (map graph_item asgs) = Inr items"
    and G: "G = dict items"
    by (auto simp: reference_graph_def split: sum.splits)
  from results_items [OF items] G show "G = dict (map (\<lambda>a. projr (graph_item a)) asgs)"
    by simp
  show "\<forall>a\<in>set asgs. \<exists>n refs. reference_name a = Inr n \<and> references a = Inr refs
           \<and> graph_item a = Inr (n, refs)"
  proof
    fix a assume "a \<in> set asgs"
    then obtain i where i: "i < length asgs" "asgs ! i = a" by (auto simp: in_set_conv_nth)
    with results_Inr [OF items] have "graph_item a = Inr (items ! i)" by auto
    then show "\<exists>n refs. reference_name a = Inr n \<and> references a = Inr refs
           \<and> graph_item a = Inr (n, refs)"
      by (cases "items ! i") (auto simp: graph_item_Inr)
  qed
qed

lemma reference_graph_wf:
  assumes "reference_graph asgs = Inr G"
  shows "distinct (map fst G)" and "\<forall>(k, s)\<in>set G. finite s"
proof -
  note G = reference_graph_items [OF assms]
  show "distinct (map fst G)" by (subst G(1)) (rule dict_distinct)
  show "\<forall>(k, s)\<in>set G. finite s"
  proof (clarify)
    fix k s assume "(k, s) \<in> set G"
    then have "(k, s) \<in> set (map (\<lambda>a. projr (graph_item a)) asgs)"
      using dict_entries G(1) by blast
    then obtain a where a: "a \<in> set asgs" "(k, s) = projr (graph_item a)" by auto
    with G(2) have "references a = Inr s" by force
    then show "finite s" by (rule references_finite)
  qed
qed

lemma reference_graph_keys:
  assumes "reference_graph asgs = Inr G" and "a \<in> set asgs"
  shows "\<exists>n. reference_name a = Inr n \<and> n \<in> fst ` set G"
proof -
  note G = reference_graph_items [OF assms(1)]
  from G(2) assms(2) obtain n refs where a: "reference_name a = Inr n"
    "graph_item a = Inr (n, refs)" by blast
  then have "n \<in> fst ` set (map (\<lambda>a. projr (graph_item a)) asgs)"
    using assms(2) by force
  then have "n \<in> fst ` set G" by (subst G(1)) (simp only: dict_keys)
  with a show ?thesis by blast
qed

subsection \<open>The loop from its start to its end\<close>

lemma loop_inv_initial:
  assumes "distinct (map fst G)"
  shows "loop_inv G G (filter (\<lambda>n. \<not> has_predecessor G n) (map fst G)) []"
  unfolding loop_inv_def using assms by (auto simp: distinct_map_filter)

lemma topological_loop_result:
  assumes "iterates_sets enum" and "reference_graph asgs = Inr G"
    and "topological_loop enum G (filter (\<lambda>n. \<not> has_predecessor G n) (map fst G)) []
           = (residual, order)"
  shows "loop_inv G residual [] order"
  using topological_loop_inv [OF reference_graph_wf [OF assms(2)] assms(1)
      loop_inv_initial [OF reference_graph_wf(1) [OF assms(2)]] assms(3)] .

lemma graph_edges_finite: "finite (graph_edges G)"
proof -
  have "graph_edges G \<subseteq> fst ` set G \<times> fst ` set G"
    by (force simp: graph_edges_def edges_def)
  then show ?thesis by (rule finite_subset) simp
qed

lemma acyclic_residual_empty:
  assumes inv: "loop_inv G residual [] order" and acyc: "acyclic (graph_edges G)"
  shows "residual = []"
proof (rule ccontr)
  assume ne: "residual \<noteq> []"
  note all = inv [unfolded loop_inv_def]
  note g = all [THEN conjunct1]
  note complete = all [THEN conjunct2, THEN conjunct2, THEN conjunct2, THEN conjunct1]
  have sub: "set residual \<subseteq> set G" by (subst g) simp
  have wf: "wf (graph_edges G)"
    using graph_edges_finite acyc by (rule finite_acyclic_wf)
  from ne obtain k0 where "k0 \<in> fst ` set residual"
    by (cases residual) auto
  from wfE_min [OF wf this] obtain z where z: "z \<in> fst ` set residual"
    and min: "\<And>y. (y, z) \<in> graph_edges G \<Longrightarrow> y \<notin> fst ` set residual"
    by blast
  from complete z have "has_predecessor residual z" by auto
  then obtain n s where ns: "(n, s) \<in> set residual" "z \<in> s"
    by (auto simp: has_predecessor_iff edges_iff)
  with sub z have "(n, z) \<in> graph_edges G"
    by (auto simp: graph_edges_def edges_iff)
  from min [OF this] ns(1) show False by force
qed

lemma list_index_member: "list_index xs x = Inr i \<Longrightarrow> x \<in> set xs"
  by (induction xs arbitrary: i) (auto split: if_splits sum.splits)

lemma list_index_Inr: "x \<in> set xs \<Longrightarrow> \<exists>i. list_index xs x = Inr i"
  by (induction xs) auto

lemma dependencies_first_index:
  "dependencies_first G order \<Longrightarrow> (n, m) \<in> edges G \<Longrightarrow> list_index order n = Inr i
   \<Longrightarrow> list_index order m = Inr j \<Longrightarrow> j < i"
proof (induction order arbitrary: i j)
  case Nil
  then show ?case by simp
next
  case (Cons x rest)
  from Cons.prems(4) have m: "m \<in> set (x # rest)" by (rule list_index_member)
  with Cons.prems(1,2) have xn: "x \<noteq> n" by auto
  with Cons.prems(3) obtain i' where i': "list_index rest n = Inr i'" "i = Suc i'"
    by (auto split: sum.splits)
  show ?case
  proof (cases "x = m")
    case True
    with Cons.prems(4) i' show ?thesis by simp
  next
    case False
    with Cons.prems(4) obtain j' where j': "list_index rest m = Inr j'" "j = Suc j'"
      by (auto split: sum.splits)
    from Cons.prems(1) have "dependencies_first G rest" by simp
    from Cons.IH [OF this Cons.prems(2) i'(1) j'(1)] i' j' show ?thesis by simp
  qed
qed

lemma empty_residual_acyclic:
  assumes inv: "loop_inv G [] [] order"
  shows "acyclic (graph_edges G)"
proof -
  note all = inv [unfolded loop_inv_def]
  note g = all [THEN conjunct1]
  note df = all [THEN conjunct2, THEN conjunct2, THEN conjunct2, THEN conjunct2]
  have keys: "k \<in> set order" if "k \<in> fst ` set G" for k
  proof (rule ccontr)
    assume "k \<notin> set order"
    with that have "filter (\<lambda>(k, s). k \<notin> set order) G \<noteq> []"
      by (force simp: filter_empty_conv)
    with g show False by simp
  qed
  show ?thesis
  proof (rule acyclicI_order [where f = "\<lambda>n. projr (list_index order n)"])
    fix n m assume "(n, m) \<in> graph_edges G"
    then have e: "(n, m) \<in> edges G" and "m \<in> fst ` set G" and "n \<in> fst ` set G"
      by (force simp: graph_edges_def edges_iff)+
    then obtain i j where ij: "list_index order n = Inr i" "list_index order m = Inr j"
      using keys list_index_Inr by meson
    from dependencies_first_index [OF df e ij] ij
    show "projr (list_index order m) < projr (list_index order n)" by simp
  qed
qed

subsection \<open>Sorting by the position in the order\<close>

lemma insort_key_tagged:
  "insort_key fst (f x, x) (map (\<lambda>y. (f y, y)) ys) = map (\<lambda>y. (f y, y)) (insort_key f x ys)"
  by (induction ys) auto

lemma sort_key_tagged:
  "map snd (sort_key fst (zip (map f xs) xs)) = sort_key f xs"
proof -
  have z: "zip (map f xs) xs = map (\<lambda>y. (f y, y)) xs" for xs :: "'a list"
    by (induction xs) auto
  have "sort_key fst (map (\<lambda>y. (f y, y)) xs) = map (\<lambda>y. (f y, y)) (sort_key f xs)"
    by (induction xs) (auto simp: insort_key_tagged)
  then show ?thesis by (simp add: z comp_def)
qed

lemma sorted_by_key_Inr:
  assumes "\<And>x. x \<in> set xs \<Longrightarrow> key x = Inr (f x)"
  shows "sorted_by_key key xs = Inr (sort_key f xs)"
  using results_map_Inr [of xs key f, OF assms]
  by (simp add: sorted_by_key_def sort_key_tagged)

lemma sort_key_positions:
  assumes "i < length xs" and "j < length xs"
    and "f (sort_key f xs ! j) < f (sort_key f xs ! i)"
  shows "j < i"
proof (rule ccontr)
  assume "\<not> j < i"
  then have "i \<le> j" by simp
  moreover have "sorted (map f (sort_key f xs))" by (rule sorted_sort_key)
  ultimately have "map f (sort_key f xs) ! i \<le> map f (sort_key f xs) ! j"
    using assms(2) by (intro sorted_nth_mono) auto
  with assms show False by simp
qed

lemma loop_inv_all_sorted:
  assumes inv: "loop_inv G [] [] order"
  shows "fst ` set G \<subseteq> set order"
proof
  fix k assume k: "k \<in> fst ` set G"
  note g = inv [unfolded loop_inv_def, THEN conjunct1]
  show "k \<in> set order"
  proof (rule ccontr)
    assume "k \<notin> set order"
    with k have "filter (\<lambda>(k, s). k \<notin> set order) G \<noteq> []"
      by (force simp: filter_empty_conv)
    with g show False by simp
  qed
qed

lemma topological_sort_unfold:
  assumes "reference_graph asgs = Inr G"
    and "topological_loop enum G (filter (\<lambda>n. \<not> has_predecessor G n) (map fst G)) []
           = (residual, order)"
  shows "topological_sort enum asgs =
     (if residual \<noteq> [] then Inl (CyclicReferences residual)
      else sorted_by_key
             (\<lambda>a. case reference_name a of Inl e \<Rightarrow> Inl e | Inr n \<Rightarrow> list_index order n) asgs)"
  using assms by (simp add: topological_sort_def)

text \<open>
  C7. When the graph that \<^verbatim>\<open>topological_sort\<close> builds from the assignments has a cycle
  among its keys, the call raises \<^verbatim>\<open>CyclicReferences\<close> with the graph that is left when
  the roots are exhausted: a non-empty part of the graph, every key of which is still
  referenced by a key of that part.
\<close>

theorem topological_sort_cyclic:
  assumes "iterates_sets enum" and "reference_graph asgs = Inr G"
    and "\<not> acyclic (graph_edges G)"
  shows "\<exists>residual. topological_sort enum asgs = Inl (CyclicReferences residual)
     \<and> residual \<noteq> [] \<and> set residual \<subseteq> set G
     \<and> (\<forall>k\<in>fst ` set residual. has_predecessor residual k)"
proof -
  obtain residual order where loop:
    "topological_loop enum G (filter (\<lambda>n. \<not> has_predecessor G n) (map fst G)) []
       = (residual, order)"
    by (cases "topological_loop enum G (filter (\<lambda>n. \<not> has_predecessor G n) (map fst G)) []")
  note inv = topological_loop_result [OF assms(1,2) loop]
  note all = inv [unfolded loop_inv_def]
  note g = all [THEN conjunct1]
  note complete = all [THEN conjunct2, THEN conjunct2, THEN conjunct2, THEN conjunct1]
  have ne: "residual \<noteq> []"
  proof
    assume "residual = []"
    with inv have "loop_inv G [] [] order" by simp
    then have "acyclic (graph_edges G)" by (rule empty_residual_acyclic)
    with assms(3) show False by simp
  qed
  have sub: "set residual \<subseteq> set G" by (subst g) simp
  have stuck: "\<forall>k\<in>fst ` set residual. has_predecessor residual k"
    using complete by auto
  have "topological_sort enum asgs = Inl (CyclicReferences residual)"
    using ne by (simp add: topological_sort_unfold [OF assms(2) loop])
  with ne sub stuck show ?thesis by blast
qed

lemma distinct_names_unique:
  assumes "distinct (map reference_name asgs)" and "a \<in> set asgs" and "a' \<in> set asgs"
    and "reference_name a = reference_name a'"
  shows "a = a'"
  using assms by (meson distinct_map inj_onD)

lemma reference_graph_distinct_entry:
  assumes G: "reference_graph asgs = Inr G" and dist: "distinct (map reference_name asgs)"
    and a: "a \<in> set asgs" "reference_name a = Inr n" "references a = Inr refs"
  shows "(n, refs) \<in> set G"
proof -
  note items = reference_graph_items [OF G]
  have key: "fst (projr (graph_item x)) = projr (reference_name x)" if "x \<in> set asgs" for x
    using items(2) that by force
  have keys: "map fst (map (\<lambda>a. projr (graph_item a)) asgs) =
      map (\<lambda>a. projr (reference_name a)) asgs"
    using key by simp
  have "distinct (map (\<lambda>a. projr (reference_name a)) asgs)"
  proof (subst distinct_map, intro conjI)
    show "distinct asgs" using dist by (simp add: distinct_map)
    show "inj_on (\<lambda>a. projr (reference_name a)) (set asgs)"
    proof (rule inj_onI)
      fix x y assume xy: "x \<in> set asgs" "y \<in> set asgs"
        and eq: "projr (reference_name x) = projr (reference_name y)"
      from items(2) xy obtain nx ny where "reference_name x = Inr nx" "reference_name y = Inr ny"
        by blast
      with eq have "reference_name x = reference_name y" by simp
      with dist xy show "x = y" by (rule distinct_names_unique)
    qed
  qed
  then have "distinct (map fst (map (\<lambda>a. projr (graph_item a)) asgs))"
    by (simp only: keys)
  then have "dict (map (\<lambda>a. projr (graph_item a)) asgs) = map (\<lambda>a. projr (graph_item a)) asgs"
    by (rule dict_distinct_items)
  with items(1) have "G = map (\<lambda>a. projr (graph_item a)) asgs" by simp
  moreover have "projr (graph_item a) = (n, refs)"
    using a(2,3) by (simp add: graph_item_def)
  ultimately show ?thesis using a(1) by force
qed

lemma graph_edge_depends:
  assumes G: "reference_graph asgs = Inr G" and "(n, m) \<in> graph_edges G"
  shows "\<exists>a\<in>set asgs. \<exists>b\<in>set asgs. reference_name a = Inr n \<and> reference_name b = Inr m
           \<and> (a, b) \<in> depends_on asgs"
proof -
  note items = reference_graph_items [OF G]
  from assms(2) obtain s where s: "(n, s) \<in> set G" "m \<in> s" and m: "m \<in> fst ` set G"
    by (auto simp: graph_edges_def edges_iff)
  from s(1) have "(n, s) \<in> set (map (\<lambda>a. projr (graph_item a)) asgs)"
    using dict_entries items(1) by blast
  then obtain a where a: "a \<in> set asgs" "(n, s) = projr (graph_item a)" by auto
  with items(2) have a': "reference_name a = Inr n" "references a = Inr s" by force+
  from m have "m \<in> fst ` set (map (\<lambda>a. projr (graph_item a)) asgs)"
    by (subst (asm) items(1)) (simp only: dict_keys)
  then obtain b where b: "b \<in> set asgs" "m = fst (projr (graph_item b))" by auto
  with items(2) have b': "reference_name b = Inr m" by force
  from a(1) b(1) a' b' s(2) have "(a, b) \<in> depends_on asgs"
    by (auto simp: depends_on_def)
  with a(1) b(1) a'(1) b' show ?thesis by blast
qed

lemma acyclic_reference_graph:
  assumes G: "reference_graph asgs = Inr G" and dist: "distinct (map reference_name asgs)"
    and acyc: "acyclic (depends_on asgs)"
  shows "acyclic (graph_edges G)"
proof -
  have step: "\<forall>a\<in>set asgs. reference_name a = Inr n \<longrightarrow>
      (\<exists>b\<in>set asgs. reference_name b = Inr m \<and> (a, b) \<in> (depends_on asgs)\<^sup>+)"
    if "(n, m) \<in> (graph_edges G)\<^sup>+" for n m
    using that
  proof (induction rule: trancl_induct)
    case (base m)
    from graph_edge_depends [OF G base] obtain a b where ab: "a \<in> set asgs" "b \<in> set asgs"
      "reference_name a = Inr n" "reference_name b = Inr m" "(a, b) \<in> depends_on asgs"
      by blast
    show ?case
    proof (intro ballI impI)
      fix a' assume "a' \<in> set asgs" "reference_name a' = Inr n"
      with ab dist have "a' = a" by (intro distinct_names_unique [of asgs]) auto
      with ab show "\<exists>b\<in>set asgs. reference_name b = Inr m \<and> (a', b) \<in> (depends_on asgs)\<^sup>+"
        by blast
    qed
  next
    case (step m k)
    from graph_edge_depends [OF G step.hyps(2)] obtain b c where bc: "b \<in> set asgs"
      "c \<in> set asgs" "reference_name b = Inr m" "reference_name c = Inr k"
      "(b, c) \<in> depends_on asgs"
      by blast
    show ?case
    proof (intro ballI impI)
      fix a assume a: "a \<in> set asgs" "reference_name a = Inr n"
      with step.IH obtain b' where b': "b' \<in> set asgs" "reference_name b' = Inr m"
        "(a, b') \<in> (depends_on asgs)\<^sup>+" by blast
      with bc dist have "b' = b" by (intro distinct_names_unique [of asgs]) auto
      with b' bc have "(a, c) \<in> (depends_on asgs)\<^sup>+" by (meson trancl.trancl_into_trancl)
      with bc show "\<exists>b\<in>set asgs. reference_name b = Inr k \<and> (a, b) \<in> (depends_on asgs)\<^sup>+"
        by blast
    qed
  qed
  show ?thesis
  proof (rule acyclicI, rule allI, rule notI)
    fix n assume cyc: "(n, n) \<in> (graph_edges G)\<^sup>+"
    then obtain m where "(n, m) \<in> graph_edges G" by (meson tranclD)
    from graph_edge_depends [OF G this] obtain a where a: "a \<in> set asgs"
      "reference_name a = Inr n" by blast
    with step [OF cyc] obtain b where b: "b \<in> set asgs" "reference_name b = Inr n"
      "(a, b) \<in> (depends_on asgs)\<^sup>+" by blast
    with a dist have "b = a" by (intro distinct_names_unique [of asgs]) auto
    with b acyc show False by (auto simp: acyclic_def)
  qed
qed

text \<open>
  C2 (amended). For assignments with pairwise distinct names whose dependencies have no
  cycle, \<^verbatim>\<open>topological_sort\<close> returns a permutation of the assignments in which every
  assignment that an assignment depends on, directly or through other assignments of the
  list, stands at an earlier index: dependencies come before their dependants.
\<close>

theorem topological_sort_dependencies_first:
  assumes "iterates_sets enum" and "reference_graph asgs = Inr G"
    and "distinct (map reference_name asgs)" and "acyclic (depends_on asgs)"
  shows "\<exists>result. topological_sort enum asgs = Inr result \<and> mset result = mset asgs
     \<and> (\<forall>i<length result. \<forall>j<length result.
           (result ! i, result ! j) \<in> (depends_on asgs)\<^sup>+ \<longrightarrow> j < i)"
proof -
  obtain residual order where loop:
    "topological_loop enum G (filter (\<lambda>n. \<not> has_predecessor G n) (map fst G)) []
       = (residual, order)"
    by (cases "topological_loop enum G (filter (\<lambda>n. \<not> has_predecessor G n) (map fst G)) []")
  note inv0 = topological_loop_result [OF assms(1,2) loop]
  have acyc: "acyclic (graph_edges G)"
    using assms(2,3,4) by (rule acyclic_reference_graph)
  have empty: "residual = []"
    using inv0 acyc by (rule acyclic_residual_empty)
  with inv0 have inv: "loop_inv G [] [] order" by simp
  note df = inv [unfolded loop_inv_def, THEN conjunct2, THEN conjunct2, THEN conjunct2,
      THEN conjunct2]
  define f where "f a = projr (list_index order (projr (reference_name a)))" for a
  have indexed: "\<exists>n i. reference_name a = Inr n \<and> list_index order n = Inr i" if "a \<in> set asgs" for a
  proof -
    from reference_graph_keys [OF assms(2) that] obtain n where n: "reference_name a = Inr n"
      "n \<in> fst ` set G" by blast
    with loop_inv_all_sorted [OF inv] have "n \<in> set order" by blast
    from list_index_Inr [OF this] n(1) show ?thesis by blast
  qed
  have key: "(case reference_name a of Inl e \<Rightarrow> Inl e | Inr n \<Rightarrow> list_index order n) = Inr (f a)"
    if "a \<in> set asgs" for a
    using indexed [OF that] by (auto simp: f_def)
  have result: "topological_sort enum asgs = Inr (sort_key f asgs)"
    using empty sorted_by_key_Inr [of asgs _ f, OF key]
    by (simp add: topological_sort_unfold [OF assms(2) loop])
  have direct: "f b < f a" if "(a, b) \<in> depends_on asgs" for a b
  proof -
    from that obtain m refs where ab: "a \<in> set asgs" "b \<in> set asgs"
      "reference_name b = Inr m" "references a = Inr refs" "m \<in> refs"
      by (auto simp: depends_on_def)
    from indexed [OF ab(1)] obtain n i where n: "reference_name a = Inr n" "list_index order n = Inr i"
      by blast
    from indexed [OF ab(2)] ab(3) obtain j where j: "list_index order m = Inr j" by auto
    have "(n, refs) \<in> set G"
      using assms(2,3) ab(1) n(1) ab(4) by (rule reference_graph_distinct_entry)
    with ab(5) have "(n, m) \<in> edges G" by (auto simp: edges_iff)
    from dependencies_first_index [OF df this n(2) j] have "j < i" .
    with n j ab(3) show ?thesis by (simp add: f_def)
  qed
  have trans: "f b < f a" if "(a, b) \<in> (depends_on asgs)\<^sup>+" for a b
    using that
  proof (induction rule: trancl_induct)
    case (base b)
    then show ?case by (rule direct)
  next
    case (step b c)
    from direct [OF step.hyps(2)] step.IH show ?case by simp
  qed
  have order: "\<forall>i<length (sort_key f asgs). \<forall>j<length (sort_key f asgs).
      (sort_key f asgs ! i, sort_key f asgs ! j) \<in> (depends_on asgs)\<^sup>+ \<longrightarrow> j < i"
  proof (intro allI impI)
    fix i j assume ij: "i < length (sort_key f asgs)" "j < length (sort_key f asgs)"
      and dep: "(sort_key f asgs ! i, sort_key f asgs ! j) \<in> (depends_on asgs)\<^sup>+"
    from trans [OF dep] ij show "j < i"
      by (intro sort_key_positions [of i asgs j f]) simp_all
  qed
  from result order show ?thesis by simp
qed

subsection \<open>The scenarios\<close>

lemma descendants_unfold:
  "descendants (TypeAssignment tn td) = td # descendants td"
  "descendants (ConstructedType k tn cs) = concat (map (\<lambda>c. c # descendants c) cs)"
  "descendants (SimpleType tn None) = []"
  "descendants (DefinedType mn tn None) = []"
  "descendants (ComponentType ident td dv opt) =
     td # descendants td @ concat (map (\<lambda>c. c # descendants c) (maybe_nodes dv))"
  by (subst descendants.simps, simp)+

lemma scenario_references:
  "references assignment_A = Inr {''B''}" "references assignment_B = Inr {}"
  "references assignment_C = Inr {''A''}" "references cyclic_B = Inr {''A''}"
  by (simp_all add: assignment_A_def assignment_B_def assignment_C_def cyclic_B_def
      references_def descendants_unfold)

lemma scenario_names:
  "reference_name assignment_A = Inr ''A''" "reference_name assignment_B = Inr ''B''"
  "reference_name assignment_C = Inr ''C''" "reference_name cyclic_B = Inr ''B''"
  by (simp_all add: assignment_A_def assignment_B_def assignment_C_def cyclic_B_def)

lemma scenario_3_graph:
  "reference_graph [assignment_A, assignment_B, assignment_C] =
     Inr [(''A'', {''B''}), (''B'', {}), (''C'', {''A''})]"
  by (simp add: reference_graph_def graph_item_def scenario_references scenario_names dict_def)

lemma scenario_4_graph:
  "reference_graph [assignment_A, cyclic_B] = Inr [(''A'', {''B''}), (''B'', {''A''})]"
  by (simp add: reference_graph_def graph_item_def scenario_references scenario_names dict_def)

lemma enum_empty: assumes "iterates_sets enum" shows "enum {} = []"
proof -
  have "set (enum {}) = {}"
    using assms unfolding iterates_sets_def by blast
  then show ?thesis by simp
qed

lemma enum_single: assumes "iterates_sets enum" shows "enum {x} = [x]"
proof -
  have "finite {x}" by simp
  then have "set (enum {x}) = {x}" "distinct (enum {x})"
    using assms unfolding iterates_sets_def by blast+
  then show ?thesis
    by (cases "enum {x}") (auto simp: subset_singleton_iff dest!: sym [of _ "{x}"])
qed

lemma iterates_sets_sorted_list: "iterates_sets sorted_list_of_set"
  by (simp add: iterates_sets_def)

text \<open>
  C8. For \<^verbatim>\<open>A ::= SEQUENCE { x B }\<close>, \<^verbatim>\<open>B ::= INTEGER\<close>, \<^verbatim>\<open>C ::= SEQUENCE { y A }\<close> in the
  order A, B, C, \<^verbatim>\<open>topological_sort\<close> returns B, A, C whatever the iteration order of
  sets: B precedes A and A precedes C.
\<close>

theorem topological_sort_scenario_3:
  assumes "iterates_sets enum"
  shows "topological_sort enum [assignment_A, assignment_B, assignment_C] =
     Inr [assignment_B, assignment_A, assignment_C]"
proof -
  have "topological_loop enum [(''A'', {''B''}), (''B'', {}), (''C'', {''A''})] [''C''] [] =
      ([], [''B'', ''A'', ''C''])"
    by (simp add: topological_loop.simps enum_empty [OF assms] enum_single [OF assms]
        has_predecessor_def AList.delete_eq)
  then show ?thesis
    by (simp add: topological_sort_def scenario_3_graph has_predecessor_def sorted_by_key_def
        scenario_names)
qed

text \<open>The witness: sets iterated in ascending order.\<close>

theorem topological_sort_scenario_3_witness:
  "topological_sort sorted_list_of_set [assignment_A, assignment_B, assignment_C] =
     Inr [assignment_B, assignment_A, assignment_C]"
  using topological_sort_scenario_3 [OF iterates_sets_sorted_list] .

lemma scenario_3_depends:
  "depends_on [assignment_A, assignment_B, assignment_C] =
     {(assignment_A, assignment_B), (assignment_C, assignment_A)}"
  by (auto simp: depends_on_def scenario_references scenario_names)

lemma scenario_3_distinct:
  "assignment_A \<noteq> assignment_B" "assignment_A \<noteq> assignment_C" "assignment_B \<noteq> assignment_C"
  by (simp_all add: assignment_A_def assignment_B_def assignment_C_def)

lemma scenario_3_acyclic: "acyclic (depends_on [assignment_A, assignment_B, assignment_C])"
proof (rule acyclicI_order [where f = "\<lambda>a. if a = assignment_B then 0 else
    if a = assignment_A then 1 else (2::nat)"])
  fix a b assume "(a, b) \<in> depends_on [assignment_A, assignment_B, assignment_C]"
  then have "(a, b) = (assignment_A, assignment_B) \<or> (a, b) = (assignment_C, assignment_A)"
    by (simp add: scenario_3_depends)
  then show "(if b = assignment_B then 0 else if b = assignment_A then 1 else (2::nat))
      < (if a = assignment_B then 0 else if a = assignment_A then 1 else 2)"
    using scenario_3_distinct by auto
qed

text \<open>The witness of C2 (amended): scenario 3.\<close>

theorem topological_sort_dependencies_first_witness:
  "\<exists>result. topological_sort sorted_list_of_set [assignment_A, assignment_B, assignment_C]
       = Inr result
     \<and> mset result = mset [assignment_A, assignment_B, assignment_C]
     \<and> (\<forall>i<length result. \<forall>j<length result.
           (result ! i, result ! j) \<in> (depends_on [assignment_A, assignment_B, assignment_C])\<^sup>+
           \<longrightarrow> j < i)"
proof (rule topological_sort_dependencies_first
    [OF iterates_sets_sorted_list scenario_3_graph _ scenario_3_acyclic])
  show "distinct (map reference_name [assignment_A, assignment_B, assignment_C])"
    by (simp add: scenario_names)
qed

lemma scenario_4_cyclic: "\<not> acyclic (graph_edges [(''A'', {''B''}), (''B'', {''A''})])"
proof -
  have "(''A'', ''B'') \<in> graph_edges [(''A'', {''B''}), (''B'', {''A''})]"
    and "(''B'', ''A'') \<in> graph_edges [(''A'', {''B''}), (''B'', {''A''})]"
    by (simp_all add: graph_edges_def edges_def)
  then have "(''A'', ''A'') \<in> (graph_edges [(''A'', {''B''}), (''B'', {''A''})])\<^sup>+"
    by (meson trancl.r_into_trancl trancl.trancl_into_trancl)
  then show ?thesis by (auto simp: acyclic_def)
qed

text \<open>The witness of C7: scenario 4, where nothing can be sorted.\<close>

theorem topological_sort_cyclic_witness:
  "\<exists>residual. topological_sort sorted_list_of_set [assignment_A, cyclic_B]
       = Inl (CyclicReferences residual)
     \<and> residual \<noteq> [] \<and> set residual \<subseteq> set [(''A'', {''B''}), (''B'', {''A''})]
     \<and> (\<forall>k\<in>fst ` set residual. has_predecessor residual k)"
  by (rule topological_sort_cyclic [OF iterates_sets_sorted_list scenario_4_graph
        scenario_4_cyclic])

text \<open>
  C2 as stated fails: \<open>A\<close> references \<open>B\<close>, and in the result the dependency \<open>B\<close> stands
  at index 0, before its dependant \<open>A\<close> at index 1, not after it.
\<close>

theorem topological_sort_dependencies_after_counterexample:
  "topological_sort sorted_list_of_set [assignment_A, assignment_B] =
     Inr [assignment_B, assignment_A]
   \<and> references assignment_A = Inr {''B''}
   \<and> reference_name assignment_B = Inr ''B''"
proof -
  have g: "reference_graph [assignment_A, assignment_B] = Inr [(''A'', {''B''}), (''B'', {})]"
    by (simp add: reference_graph_def graph_item_def scenario_references scenario_names
        dict_def)
  have "topological_loop sorted_list_of_set [(''A'', {''B''}), (''B'', {})] [''A''] [] =
      ([], [''B'', ''A''])"
    by (simp add: topological_loop.simps has_predecessor_def AList.delete_eq)
  then show ?thesis
    by (simp add: topological_sort_def g has_predecessor_def sorted_by_key_def
        scenario_names scenario_references)
qed

end
